theory Spec2Isabelle
  imports Complex_Main
begin

section \<open>JavaScript values\<close>

text \<open>
  The forecasting service computes with JavaScript numbers. A value of an array or of a
  numeric option is modelled as \<open>jsval\<close>: a finite number, one of the two infinities,
  \<open>NaN\<close>, or \<open>undefined\<close> (what an out-of-range array read and a missing option
  yield). Finite arithmetic is exact real arithmetic: rounding to 64-bit doubles, overflow
  of a finite result to \<open>Infinity\<close> and the sign of zero are not modelled. The special
  values follow IEEE 754 as JavaScript applies it: \<open>0/0\<close>, \<open>Infinity - Infinity\<close> and
  \<open>0 * Infinity\<close> are \<open>NaN\<close>, a non-zero number divided by zero is an infinity, and
  \<open>undefined\<close> converts to \<open>NaN\<close> in arithmetic.
\<close>

datatype jsval = Fin real | PosInf | NegInf | NaN | Undef

fun js_neg :: "jsval \<Rightarrow> jsval" where
  "js_neg (Fin a) = Fin (- a)"
| "js_neg PosInf = NegInf"
| "js_neg NegInf = PosInf"
| "js_neg NaN = NaN"
| "js_neg Undef = NaN"

fun js_add :: "jsval \<Rightarrow> jsval \<Rightarrow> jsval" where
  "js_add (Fin a) (Fin b) = Fin (a + b)"
| "js_add (Fin a) PosInf = PosInf"
| "js_add (Fin a) NegInf = NegInf"
| "js_add PosInf (Fin b) = PosInf"
| "js_add PosInf PosInf = PosInf"
| "js_add NegInf (Fin b) = NegInf"
| "js_add NegInf NegInf = NegInf"
| "js_add _ _ = NaN"

definition js_sub :: "jsval \<Rightarrow> jsval \<Rightarrow> jsval" where
  "js_sub a b = js_add a (js_neg b)"

fun js_mul :: "jsval \<Rightarrow> jsval \<Rightarrow> jsval" where
  "js_mul (Fin a) (Fin b) = Fin (a * b)"
| "js_mul (Fin a) PosInf = (if a = 0 then NaN else if 0 < a then PosInf else NegInf)"
| "js_mul (Fin a) NegInf = (if a = 0 then NaN else if 0 < a then NegInf else PosInf)"
| "js_mul PosInf (Fin b) = (if b = 0 then NaN else if 0 < b then PosInf else NegInf)"
| "js_mul NegInf (Fin b) = (if b = 0 then NaN else if 0 < b then NegInf else PosInf)"
| "js_mul PosInf PosInf = PosInf"
| "js_mul PosInf NegInf = NegInf"
| "js_mul NegInf PosInf = NegInf"
| "js_mul NegInf NegInf = PosInf"
| "js_mul _ _ = NaN"

fun js_div :: "jsval \<Rightarrow> jsval \<Rightarrow> jsval" where
  "js_div (Fin a) (Fin b) =
     (if b = 0 then (if a = 0 then NaN else if 0 < a then PosInf else NegInf)
      else Fin (a / b))"
| "js_div (Fin a) PosInf = Fin 0"
| "js_div (Fin a) NegInf = Fin 0"
| "js_div PosInf (Fin b) = (if 0 \<le> b then PosInf else NegInf)"
| "js_div NegInf (Fin b) = (if 0 \<le> b then NegInf else PosInf)"
| "js_div _ _ = NaN"

text \<open>\<open>Math.sqrt\<close>, \<open>Math.pow(x, 2)\<close>, \<open>Math.floor\<close>, \<open>Math.log\<close> and \<open>Math.cos\<close>.\<close>

fun Math_sqrt :: "jsval \<Rightarrow> jsval" where
  "Math_sqrt (Fin a) = (if a < 0 then NaN else Fin (sqrt a))"
| "Math_sqrt PosInf = PosInf"
| "Math_sqrt _ = NaN"

fun Math_pow2 :: "jsval \<Rightarrow> jsval" where
  "Math_pow2 (Fin a) = Fin (a * a)"
| "Math_pow2 PosInf = PosInf"
| "Math_pow2 NegInf = PosInf"
| "Math_pow2 _ = NaN"

fun Math_floor :: "jsval \<Rightarrow> jsval" where
  "Math_floor (Fin a) = Fin (of_int \<lfloor>a\<rfloor>)"
| "Math_floor PosInf = PosInf"
| "Math_floor NegInf = NegInf"
| "Math_floor _ = NaN"

fun Math_log :: "jsval \<Rightarrow> jsval" where
  "Math_log (Fin a) = (if a < 0 then NaN else if a = 0 then NegInf else Fin (ln a))"
| "Math_log PosInf = PosInf"
| "Math_log _ = NaN"

fun Math_cos :: "jsval \<Rightarrow> jsval" where
  "Math_cos (Fin a) = Fin (cos a)"
| "Math_cos _ = NaN"

text \<open>The comparison \<open>a <= b\<close>: false as soon as one side converts to \<open>NaN\<close>.\<close>

fun js_le :: "jsval \<Rightarrow> jsval \<Rightarrow> bool" where
  "js_le (Fin a) (Fin b) = (a \<le> b)"
| "js_le (Fin a) PosInf = True"
| "js_le NegInf (Fin b) = True"
| "js_le NegInf NegInf = True"
| "js_le NegInf PosInf = True"
| "js_le PosInf PosInf = True"
| "js_le _ _ = False"

text \<open>
  Truthiness, for the defaults written \<open>options.x || dflt\<close>: \<open>undefined\<close>, \<open>NaN\<close>
  and \<open>0\<close> are falsy. An integer option is \<open>None\<close> when the key is absent.
\<close>

fun truthy :: "jsval \<Rightarrow> bool" where
  "truthy (Fin a) = (a \<noteq> 0)"
| "truthy PosInf = True"
| "truthy NegInf = True"
| "truthy NaN = False"
| "truthy Undef = False"

definition js_or :: "jsval \<Rightarrow> jsval \<Rightarrow> jsval" where
  "js_or v dflt = (if truthy v then v else dflt)"

definition int_or :: "int option \<Rightarrow> int \<Rightarrow> int" where
  "int_or v dflt = (case v of None \<Rightarrow> dflt | Some k \<Rightarrow> if k = 0 then dflt else k)"

text \<open>
  An array read \<open>a[i]\<close> at an integer index: \<open>undefined\<close> outside \<open>0 .. length - 1\<close>.
  \<open>js_index\<close> is the read at a number (the percentile indices of the Monte Carlo
  simulation are results of \<open>Math.floor\<close>): only a non-negative integer below the
  length names an element.
\<close>

definition js_nth :: "jsval list \<Rightarrow> int \<Rightarrow> jsval" where
  "js_nth a i = (if 0 \<le> i \<and> i < int (length a) then a ! nat i else Undef)"

fun js_index :: "jsval list \<Rightarrow> jsval \<Rightarrow> jsval" where
  "js_index a (Fin r) = (if r = of_int \<lfloor>r\<rfloor> then js_nth a \<lfloor>r\<rfloor> else Undef)"
| "js_index a _ = Undef"

text \<open>
  \<open>a.slice(start, end)\<close>: a negative bound counts from the end, and both bounds are
  clamped to the array.
\<close>

definition slice_bound :: "nat \<Rightarrow> int \<Rightarrow> nat" where
  "slice_bound len k = (if k < 0 then nat (max (int len + k) 0) else min (nat k) len)"

definition js_slice :: "'a list \<Rightarrow> int \<Rightarrow> int \<Rightarrow> 'a list" where
  "js_slice a start fin =
     (let from = slice_bound (length a) start; upto = slice_bound (length a) fin
      in take (upto - from) (drop from a))"

section \<open>Errors, options and results\<close>

text \<open>
  The service throws \<open>Error\<close> objects that differ in their message only; the array
  constructor throws a \<open>RangeError\<close> for a length that is negative or above
  \<open>2^32 - 1\<close>.
\<close>

datatype js_error = Error string | RangeError string

definition data_error :: js_error where
  "data_error = Error ''Historical data must be an array with at least 2 data points''"

definition method_error :: "string \<Rightarrow> js_error" where
  "method_error m = Error (''Forecasting method '' @ [CHR 0x22] @ m @ [CHR 0x22] @ '' not supported'')"

definition window_error :: js_error where
  "window_error = Error ''Window size cannot be larger than the historical data length''"

definition length_error :: js_error where
  "length_error = RangeError ''Invalid array length''"

text \<open>
  The options object. A field is \<open>None\<close> (for \<open>alpha\<close> and \<open>confidence\<close>:
  \<open>Undef\<close>) when the caller's object has no such key. The integer-valued options are
  integers, as the data model of the specification has them.
\<close>

record options =
  opt_method :: "string option"
  opt_periods :: "int option"
  opt_confidence :: jsval
  opt_seasonality :: "int option"
  opt_alpha :: jsval
  opt_windowSize :: "int option"
  opt_p :: "int option"
  opt_d :: "int option"
  opt_q :: "int option"
  opt_iterations :: "int option"

text \<open>\<open>{ ...this.defaultOptions, ...options }\<close>: the caller's keys win.\<close>

definition merge_defaults :: "options \<Rightarrow> options" where
  "merge_defaults opts = opts
     \<lparr> opt_method := Some (case opt_method opts of None \<Rightarrow> ''linear'' | Some m \<Rightarrow> m),
       opt_periods := Some (case opt_periods opts of None \<Rightarrow> 5 | Some k \<Rightarrow> k),
       opt_confidence := (case opt_confidence opts of Undef \<Rightarrow> Fin 0.95 | c \<Rightarrow> c),
       opt_seasonality := Some (case opt_seasonality opts of None \<Rightarrow> 1 | Some k \<Rightarrow> k) \<rparr>"

record interval =
  lower :: jsval
  upper :: jsval

record forecastResult =
  method_name :: string
  historicalData :: "jsval list"
  forecast :: "jsval list"
  predictionIntervals :: "interval list"
  statistics :: "(string \<times> jsval) list"

text \<open>
  \<open>Array(n).fill(v)\<close>. With \<open>n\<close> undefined the constructor builds the one-element
  array \<open>[undefined]\<close>, which \<open>fill\<close> overwrites.
\<close>

definition Array_fill :: "int option \<Rightarrow> jsval \<Rightarrow> js_error + jsval list" where
  "Array_fill n v =
     (case n of
        None \<Rightarrow> Inr [v]
      | Some k \<Rightarrow> if k < 0 \<or> 4294967295 < k then Inl length_error
                  else Inr (replicate (nat k) v))"

text \<open>The numbers of a \<open>for (let i = a; i <= b; i++)\<close> loop whose bound may be undefined.\<close>

definition loop_range :: "int \<Rightarrow> int option \<Rightarrow> int list" where
  "loop_range a b = (case b of None \<Rightarrow> [] | Some k \<Rightarrow> [a..k])"

definition tValue :: jsval where
  "tValue = Fin 1.96"

text \<open>\<open>forecast.map((value, i) => ({ lower: value - w, upper: value + w }))\<close>, where the
  width \<open>w\<close> is computed from the index \<open>i\<close>.\<close>

definition intervals_around :: "jsval list \<Rightarrow> (nat \<Rightarrow> jsval) \<Rightarrow> interval list" where
  "intervals_around fc width =
     map (\<lambda>(v, i). \<lparr> lower = js_sub v (width i), upper = js_add v (width i) \<rparr>)
         (zip fc [0..<length fc])"

section \<open>Linear regression\<close>

text \<open>
  The width of the \<open>i\<close>-th interval: \<open>tValue * predictionVariance\<close>, with the
  forecast's period \<open>n + i + 1\<close> set against the mean of the values.
\<close>

definition linear_width :: "jsval \<Rightarrow> jsval \<Rightarrow> jsval \<Rightarrow> jsval \<Rightarrow> nat \<Rightarrow> jsval" where
  "linear_width n meanY totalSumOfSquares standardError i =
     (let period = js_add (js_add n (Fin (real i))) (Fin 1);
          predictionVariance = js_mul standardError
            (Math_sqrt (js_add (js_add (Fin 1) (js_div (Fin 1) n))
               (js_div (Math_pow2 (js_sub period meanY)) totalSumOfSquares)))
      in js_mul tValue predictionVariance)"

definition linearRegression :: "jsval list \<Rightarrow> options \<Rightarrow> forecastResult" where
  "linearRegression hist opts =
     (let x = map (\<lambda>index. Fin (real (index + 1))) [0..<length hist];
          y = hist;
          n = Fin (real (length x));
          sumX = foldl (\<lambda>s v. js_add s v) (Fin 0) x;
          sumY = foldl (\<lambda>s v. js_add s v) (Fin 0) y;
          sumXY = foldl (\<lambda>s (v, yv). js_add s (js_mul v yv)) (Fin 0) (zip x y);
          sumX2 = foldl (\<lambda>s v. js_add s (js_mul v v)) (Fin 0) x;
          slope = js_div (js_sub (js_mul n sumXY) (js_mul sumX sumY))
                         (js_sub (js_mul n sumX2) (js_mul sumX sumX));
          intercept = js_div (js_sub sumY (js_mul slope sumX)) n;
          fc = map (\<lambda>i. js_add intercept (js_mul slope (js_add n (Fin (of_int i)))))
                   (loop_range 1 (opt_periods opts));
          fitted = map (\<lambda>xi. js_add intercept (js_mul slope xi)) x;
          residuals = map (\<lambda>(yi, fi). js_sub yi fi) (zip y fitted);
          sse = foldl (\<lambda>s r. js_add s (js_mul r r)) (Fin 0) residuals;
          mse = js_div sse n;
          rmse = Math_sqrt mse;
          meanY = js_div sumY n;
          totalSumOfSquares = foldl (\<lambda>s yi. js_add s (Math_pow2 (js_sub yi meanY))) (Fin 0) y;
          rSquared = js_sub (Fin 1) (js_div sse totalSumOfSquares);
          standardError = Math_sqrt (js_div sse (js_sub n (Fin 2)));
          ivs = intervals_around fc (linear_width n meanY totalSumOfSquares standardError)
      in \<lparr> method_name = ''linear'', historicalData = hist, forecast = fc,
           predictionIntervals = ivs,
           statistics = [(''slope'', slope), (''intercept'', intercept),
                         (''rSquared'', rSquared), (''rmse'', rmse)] \<rparr>)"

section \<open>Exponential smoothing\<close>

text \<open>
  The smoothing loop pushes, for \<open>i = 1 .. length - 1\<close>, the value
  \<open>alpha * historicalData[i] + (1 - alpha) * smoothed[i - 1]\<close>; \<open>smoothed[i - 1]\<close> is
  the value pushed last, carried here as \<open>prev\<close>.
\<close>

fun smooth_loop :: "jsval \<Rightarrow> jsval \<Rightarrow> jsval list \<Rightarrow> jsval list" where
  "smooth_loop a prev [] = []"
| "smooth_loop a prev (h # rest) =
     (let newSmoothed = js_add (js_mul a h) (js_mul (js_sub (Fin 1) a) prev)
      in newSmoothed # smooth_loop a newSmoothed rest)"

text \<open>\<open>interval = tValue * standardError * Math.sqrt(1 + (i + 1))\<close>.\<close>

definition exponential_width :: "jsval \<Rightarrow> nat \<Rightarrow> jsval" where
  "exponential_width standardError i =
     js_mul (js_mul tValue standardError) (Math_sqrt (js_add (Fin 1) (js_add (Fin (real i)) (Fin 1))))"

definition exponentialSmoothing :: "jsval list \<Rightarrow> options \<Rightarrow> js_error + forecastResult" where
  "exponentialSmoothing hist opts =
     (let a = js_or (opt_alpha opts) (Fin 0.3);
          smoothed = js_nth hist 0 # smooth_loop a (js_nth hist 0) (drop 1 hist);
          lastSmoothed = js_nth smoothed (int (length smoothed) - 1)
      in case Array_fill (opt_periods opts) lastSmoothed of
           Inl e \<Rightarrow> Inl e
         | Inr fc \<Rightarrow>
            (let errors = map (\<lambda>(actual, i). if i = 0 then Fin 0
                                              else js_sub actual (js_nth smoothed (int i - 1)))
                              (zip hist [0..<length hist]);
                 sse = foldl (\<lambda>s e. js_add s (js_mul e e)) (Fin 0) errors;
                 mse = js_div sse (Fin (real (length hist) - 1));
                 rmse = Math_sqrt mse;
                 standardError = Math_sqrt mse;
                 ivs = intervals_around fc (exponential_width standardError)
             in Inr \<lparr> method_name = ''exponential'', historicalData = hist, forecast = fc,
                      predictionIntervals = ivs,
                      statistics = [(''alpha'', a), (''rmse'', rmse)] \<rparr>))"

section \<open>Moving average\<close>

text \<open>\<open>interval = tValue * standardError * Math.sqrt(1 + (i + 1) / windowSize)\<close>.\<close>

definition average_width :: "int \<Rightarrow> jsval \<Rightarrow> nat \<Rightarrow> jsval" where
  "average_width windowSize standardError i =
     js_mul (js_mul tValue standardError)
            (Math_sqrt (js_add (Fin 1) (js_div (js_add (Fin (real i)) (Fin 1))
                                               (Fin (of_int windowSize)))))"

definition movingAverage :: "jsval list \<Rightarrow> options \<Rightarrow> js_error + forecastResult" where
  "movingAverage hist opts =
     (let windowSize = int_or (opt_windowSize opts) 3
      in if int (length hist) < windowSize then Inl window_error
         else
           (let movingAverages =
                  map (\<lambda>i. js_div (foldl (\<lambda>s v. js_add s v) (Fin 0)
                                      (js_slice hist (i - windowSize + 1) (i + 1)))
                                   (Fin (of_int windowSize)))
                      [windowSize - 1 .. int (length hist) - 1];
                lastMA = js_nth movingAverages (int (length movingAverages) - 1)
            in case Array_fill (opt_periods opts) lastMA of
                 Inl e \<Rightarrow> Inl e
               | Inr fc \<Rightarrow>
                  (let errors = map (\<lambda>i. js_sub (js_nth hist i)
                                                  (js_nth movingAverages (i - windowSize + 1)))
                                    [windowSize - 1 .. int (length hist) - 1];
                       sse = foldl (\<lambda>s e. js_add s (js_mul e e)) (Fin 0) errors;
                       mse = js_div sse (Fin (real (length errors)));
                       rmse = Math_sqrt mse;
                       standardError = Math_sqrt mse;
                       ivs = intervals_around fc (average_width windowSize standardError)
                   in Inr \<lparr> method_name = ''moving-average'', historicalData = hist,
                            forecast = fc, predictionIntervals = ivs,
                            statistics = [(''windowSize'', Fin (of_int windowSize)),
                                          (''rmse'', rmse)] \<rparr>)))"

section \<open>ARIMA (simplified)\<close>

fun diff :: "jsval list \<Rightarrow> jsval list" where
  "diff (a # b # rest) = js_sub b a # diff (b # rest)"
| "diff _ = []"

text \<open>
  \<open>undiff\<close> starts its result with \<open>lastValue\<close>, pushes \<open>result[i] + diffData[i]\<close> and
  returns the result without its first element; \<open>result[i]\<close> is the value pushed last.
\<close>

fun undiff :: "jsval list \<Rightarrow> jsval \<Rightarrow> jsval list" where
  "undiff [] lastValue = []"
| "undiff (x # xs) lastValue = (let v = js_add lastValue x in v # undiff xs v)"

definition standardDeviation :: "jsval list \<Rightarrow> jsval" where
  "standardDeviation xs =
     (let mean = js_div (foldl (\<lambda>s v. js_add s v) (Fin 0) xs) (Fin (real (length xs)));
          squaredDiffs = map (\<lambda>v. Math_pow2 (js_sub v mean)) xs;
          variance = js_div (foldl (\<lambda>s v. js_add s v) (Fin 0) squaredDiffs)
                            (Fin (real (length xs)))
      in Math_sqrt variance)"

text \<open>
  One run of the inner loop: the autoregressive sum over the lags \<open>j = 0 .. p - 1\<close> that
  the buffer has.
\<close>

definition ar_component :: "jsval list \<Rightarrow> int \<Rightarrow> jsval list \<Rightarrow> jsval" where
  "ar_component arParams p diffData =
     foldl (\<lambda>f j. let index = int (length diffData) - j - 1
                   in if 0 \<le> index then js_add f (js_mul (js_nth arParams j) (js_nth diffData index))
                      else f)
           (Fin 0) [0 .. p - 1]"

text \<open>The outer loop: each forecast is pushed to \<open>diffForecast\<close> and to \<open>diffData\<close>.\<close>

fun ar_loop :: "jsval list \<Rightarrow> int \<Rightarrow> nat \<Rightarrow> jsval list \<Rightarrow> jsval list" where
  "ar_loop arParams p 0 diffData = []"
| "ar_loop arParams p (Suc k) diffData =
     (let f = ar_component arParams p diffData
      in f # ar_loop arParams p k (diffData @ [f]))"

definition loop_count :: "int option \<Rightarrow> nat" where
  "loop_count b = (case b of None \<Rightarrow> 0 | Some k \<Rightarrow> nat k)"

text \<open>\<open>interval = tValue * stdDev * Math.sqrt(i + 1)\<close>.\<close>

definition arima_width :: "jsval \<Rightarrow> nat \<Rightarrow> jsval" where
  "arima_width stdDev i =
     js_mul (js_mul tValue stdDev) (Math_sqrt (js_add (Fin (real i)) (Fin 1)))"

definition arima :: "jsval list \<Rightarrow> options \<Rightarrow> js_error + forecastResult" where
  "arima hist opts =
     (let p = int_or (opt_p opts) 1;
          d = int_or (opt_d opts) 0;
          q = int_or (opt_q opts) 1;
          diffData = (diff ^^ nat d) hist
      in case Array_fill (Some p) (js_div (Fin 0.7) (Fin (of_int p))) of
           Inl e \<Rightarrow> Inl e
         | Inr arParams \<Rightarrow>
            (case Array_fill (Some q) (js_div (Fin 0.3) (Fin (of_int q))) of
               Inl e \<Rightarrow> Inl e
             | Inr maParams \<Rightarrow>
                (let diffForecast = ar_loop arParams p (loop_count (opt_periods opts)) diffData;
                     fc = foldl (\<lambda>f i. undiff f (js_nth hist (int (length hist) - 1 - i)))
                                diffForecast [0 .. d - 1];
                     stdDev = standardDeviation hist;
                     ivs = intervals_around fc (arima_width stdDev)
                 in Inr \<lparr> method_name = ''arima'', historicalData = hist, forecast = fc,
                          predictionIntervals = ivs,
                          statistics = [(''p'', Fin (of_int p)), (''d'', Fin (of_int d)),
                                        (''q'', Fin (of_int q))] \<rparr>)))"

section \<open>The dispatcher\<close>

datatype input = NotAnArray | ArrayOf "jsval list"

definition generateForecast :: "input \<Rightarrow> options \<Rightarrow> js_error + forecastResult" where
  "generateForecast arg opts =
     (let forecastOptions = merge_defaults opts
      in case arg of
           NotAnArray \<Rightarrow> Inl data_error
         | ArrayOf hist \<Rightarrow>
             if length hist < 2 then Inl data_error
             else (case opt_method forecastOptions of
                     None \<Rightarrow> Inl (method_error ''undefined'')
                   | Some m \<Rightarrow>
                       if m = ''linear'' then Inr (linearRegression hist forecastOptions)
                       else if m = ''exponential'' then exponentialSmoothing hist forecastOptions
                       else if m = ''moving-average'' then movingAverage hist forecastOptions
                       else if m = ''arima'' then arima hist forecastOptions
                       else Inl (method_error m)))"

section \<open>Monte Carlo simulation\<close>

text \<open>
  \<open>Math.random()\<close> is an oracle: \<open>rnd k\<close> is the number its \<open>k\<close>-th call returns, and
  the count of the calls made so far is passed along. \<open>boxMullerTransform\<close> makes two
  calls.
\<close>

definition boxMullerTransform :: "(nat \<Rightarrow> real) \<Rightarrow> nat \<Rightarrow> jsval \<times> nat" where
  "boxMullerTransform rnd k =
     (let u1 = Fin (rnd k);
          u2 = Fin (rnd (k + 1));
          z0 = js_mul (Math_sqrt (js_mul (Fin (- 2)) (Math_log u1)))
                      (Math_cos (js_mul (js_mul (Fin 2) (Fin pi)) u2))
      in (z0, k + 2))"

fun percentChanges :: "jsval list \<Rightarrow> jsval list" where
  "percentChanges (a # b # rest) = js_sub (js_div b a) (Fin 1) # percentChanges (b # rest)"
| "percentChanges _ = []"

text \<open>
  The inner loop of one simulation: \<open>prev\<close> is \<open>simulation[j]\<close>, the value pushed last
  (\<open>lastValue\<close> at the start); the result is \<open>simulation.slice(1)\<close>.
\<close>

fun simulate :: "(nat \<Rightarrow> real) \<Rightarrow> jsval \<Rightarrow> jsval \<Rightarrow> nat \<Rightarrow> jsval \<Rightarrow> nat \<Rightarrow> jsval list \<times> nat" where
  "simulate rnd mean stdDev 0 prev k = ([], k)"
| "simulate rnd mean stdDev (Suc j) prev k =
     (let (rand, k1) = boxMullerTransform rnd k;
          percentChange = js_add mean (js_mul stdDev rand);
          newValue = js_mul prev (js_add (Fin 1) percentChange);
          (rest, k2) = simulate rnd mean stdDev j newValue k1
      in (newValue # rest, k2))"

fun run_simulations ::
  "(nat \<Rightarrow> real) \<Rightarrow> jsval \<Rightarrow> jsval \<Rightarrow> nat \<Rightarrow> jsval \<Rightarrow> nat \<Rightarrow> nat \<Rightarrow> jsval list list" where
  "run_simulations rnd mean stdDev periods lastValue 0 k = []"
| "run_simulations rnd mean stdDev periods lastValue (Suc i) k =
     (let (simulation, k1) = simulate rnd mean stdDev periods lastValue k
      in simulation # run_simulations rnd mean stdDev periods lastValue i k1)"

text \<open>
  \<open>periodValues.sort((a, b) => a - b)\<close>: a stable sort by the comparator, which puts
  \<open>a\<close> after \<open>b\<close> when \<open>a - b\<close> is positive (a \<open>NaN\<close> difference counts as zero).
  The sort is modelled as a stable insertion sort; where the comparator is not a
  consistent ordering of the elements (a \<open>NaN\<close> among numbers), JavaScript leaves the
  order to the implementation.
\<close>

fun positive :: "jsval \<Rightarrow> bool" where
  "positive (Fin a) = (0 < a)"
| "positive PosInf = True"
| "positive _ = False"

fun js_insert :: "jsval \<Rightarrow> jsval list \<Rightarrow> jsval list" where
  "js_insert v [] = [v]"
| "js_insert v (w # ws) = (if positive (js_sub v w) then w # js_insert v ws else v # w # ws)"

definition js_sort :: "jsval list \<Rightarrow> jsval list" where
  "js_sort a = foldr js_insert a []"

text \<open>
  One run of the second loop, for the forecast period \<open>i\<close>: the mean of the period's
  simulated values and the two percentile reads.
\<close>

definition period_summary :: "jsval list list \<Rightarrow> int \<Rightarrow> jsval \<Rightarrow> nat \<Rightarrow> jsval \<times> interval" where
  "period_summary simulations iterations confidenceLevel i =
     (let periodValues = js_sort (map (\<lambda>sim. js_nth sim (int i)) simulations);
          mean = js_div (foldl (\<lambda>s v. js_add s v) (Fin 0) periodValues)
                        (Fin (of_int iterations));
          lowerIndex = Math_floor (js_div (js_mul (Fin (of_int iterations))
                                                  (js_sub (Fin 1) confidenceLevel)) (Fin 2));
          upperIndex = Math_floor (js_mul (Fin (of_int iterations))
                         (js_sub (Fin 1) (js_div (js_sub (Fin 1) confidenceLevel) (Fin 2))))
      in (mean, \<lparr> lower = js_index periodValues lowerIndex,
                  upper = js_index periodValues upperIndex \<rparr>))"

definition monteCarloSimulation :: "(nat \<Rightarrow> real) \<Rightarrow> jsval list \<Rightarrow> options \<Rightarrow> forecastResult" where
  "monteCarloSimulation rnd hist opts =
     (let iterations = int_or (opt_iterations opts) 1000;
          periods = int_or (opt_periods opts) 5;
          confidenceLevel = js_or (opt_confidence opts) (Fin 0.95);
          pcs = percentChanges hist;
          mean = js_div (foldl (\<lambda>s v. js_add s v) (Fin 0) pcs) (Fin (real (length pcs)));
          variance = js_div (foldl (\<lambda>s v. js_add s (Math_pow2 (js_sub v mean))) (Fin 0) pcs)
                            (Fin (real (length pcs)));
          stdDev = Math_sqrt variance;
          lastValue = js_nth hist (int (length hist) - 1);
          simulations = run_simulations rnd mean stdDev (nat periods) lastValue (nat iterations) 0;
          per_period = map (period_summary simulations iterations confidenceLevel) [0..<nat periods]
      in \<lparr> method_name = ''monte-carlo'', historicalData = hist,
           forecast = map fst per_period,
           predictionIntervals = map snd per_period,
           statistics = [(''iterations'', Fin (of_int iterations)), (''mean'', mean),
                         (''stdDev'', stdDev)] \<rparr>)"

text \<open>The empty options object \<open>{}\<close>.\<close>

definition no_options :: options where
  "no_options = \<lparr> opt_method = None, opt_periods = None, opt_confidence = Undef,
     opt_seasonality = None, opt_alpha = Undef, opt_windowSize = None, opt_p = None,
     opt_d = None, opt_q = None, opt_iterations = None \<rparr>"

text \<open>What the dispatcher accepts as a series, and the options it passes on.\<close>

definition valid_series :: "input \<Rightarrow> bool" where
  "valid_series arg = (case arg of NotAnArray \<Rightarrow> False | ArrayOf hist \<Rightarrow> 2 \<le> length hist)"

definition series_length :: "input \<Rightarrow> nat" where
  "series_length arg = (case arg of NotAnArray \<Rightarrow> 0 | ArrayOf hist \<Rightarrow> length hist)"

definition method_of :: "options \<Rightarrow> string" where
  "method_of opts = (case opt_method opts of None \<Rightarrow> ''linear'' | Some m \<Rightarrow> m)"

definition periods_of :: "options \<Rightarrow> int" where
  "periods_of opts = (case opt_periods opts of None \<Rightarrow> 5 | Some k \<Rightarrow> k)"

text \<open>The widths of the intervals: never negative, possibly infinite or \<open>NaN\<close>.\<close>

fun nonneg_or_nan :: "jsval \<Rightarrow> bool" where
  "nonneg_or_nan (Fin a) = (0 \<le> a)"
| "nonneg_or_nan PosInf = True"
| "nonneg_or_nan NaN = True"
| "nonneg_or_nan _ = False"

section \<open>The formulas of the specification\<close>

text \<open>
  The least-squares fit as the specification writes it, over the real numbers: the time
  index of the \<open>i\<close>-th value (counted from 0) is \<open>i + 1\<close>.
\<close>

definition sum_x :: "nat \<Rightarrow> real" where
  "sum_x n = (\<Sum>i<n. real (i + 1))"

definition sum_xx :: "nat \<Rightarrow> real" where
  "sum_xx n = (\<Sum>i<n. real (i + 1) * real (i + 1))"

definition sum_y :: "real list \<Rightarrow> real" where
  "sum_y ys = (\<Sum>i<length ys. ys ! i)"

definition sum_xy :: "real list \<Rightarrow> real" where
  "sum_xy ys = (\<Sum>i<length ys. real (i + 1) * ys ! i)"

definition ols_slope :: "real list \<Rightarrow> real" where
  "ols_slope ys =
     (real (length ys) * sum_xy ys - sum_x (length ys) * sum_y ys) /
     (real (length ys) * sum_xx (length ys) - sum_x (length ys) * sum_x (length ys))"

definition ols_intercept :: "real list \<Rightarrow> real" where
  "ols_intercept ys = (sum_y ys - ols_slope ys * sum_x (length ys)) / real (length ys)"

definition ols_sse :: "real list \<Rightarrow> real" where
  "ols_sse ys = (\<Sum>i<length ys. (ys ! i - (ols_intercept ys + ols_slope ys * real (i + 1)))\<^sup>2)"

definition mean_y :: "real list \<Rightarrow> real" where
  "mean_y ys = sum_y ys / real (length ys)"

definition ols_tss :: "real list \<Rightarrow> real" where
  "ols_tss ys = (\<Sum>i<length ys. (ys ! i - mean_y ys)\<^sup>2)"

text \<open>
  The forecast for the period \<open>n + i\<close> and the half-width of its interval, for
  \<open>i = 1, 2, ...\<close>.
\<close>

definition ols_forecast :: "real list \<Rightarrow> int \<Rightarrow> real" where
  "ols_forecast ys i = ols_intercept ys + ols_slope ys * (real (length ys) + of_int i)"

definition ols_width :: "real list \<Rightarrow> int \<Rightarrow> real" where
  "ols_width ys i =
     1.96 * sqrt (ols_sse ys / (real (length ys) - 2)) *
     sqrt (1 + 1 / real (length ys) +
           (real (length ys) + of_int i - mean_y ys)\<^sup>2 / ols_tss ys)"

text \<open>
  An oracle and options for which the mean of the simulated values falls outside the
  percentile band: the first path draws \<open>u1 = u2 = 1/2\<close>, a normal variate of
  \<open>- sqrt (2 ln 2)\<close>; the other paths draw \<open>u1 = 1/2, u2 = 1/4\<close>, a variate of 0.
\<close>

definition skewed_draws :: "nat \<Rightarrow> real" where
  "skewed_draws k = (if k = 1 then 1 / 2 else if odd k then 1 / 4 else 1 / 2)"

definition skewed_options :: options where
  "skewed_options = no_options\<lparr> opt_periods := Some 1, opt_iterations := Some 4,
                                 opt_confidence := Fin (1 / 2) \<rparr>"

text \<open>
  Simple exponential smoothing as the specification writes it: the smoothed series, the
  one-step-ahead errors (the first one is 0), the root of their mean square over
  \<open>n - 1\<close>, and the half-width of the \<open>i\<close>-th interval (counted from 0).
\<close>

fun smoothed_at :: "real \<Rightarrow> real list \<Rightarrow> nat \<Rightarrow> real" where
  "smoothed_at a ys 0 = ys ! 0"
| "smoothed_at a ys (Suc i) = a * ys ! Suc i + (1 - a) * smoothed_at a ys i"

definition ses_error :: "real \<Rightarrow> real list \<Rightarrow> nat \<Rightarrow> real" where
  "ses_error a ys i = (if i = 0 then 0 else ys ! i - smoothed_at a ys (i - 1))"

definition ses_rmse :: "real \<Rightarrow> real list \<Rightarrow> real" where
  "ses_rmse a ys = sqrt ((\<Sum>i<length ys. (ses_error a ys i)\<^sup>2) / (real (length ys) - 1))"

definition ses_width :: "real \<Rightarrow> real list \<Rightarrow> nat \<Rightarrow> real" where
  "ses_width a ys i = 1.96 * ses_rmse a ys * sqrt (1 + (real i + 1))"

text \<open>
  The moving average: the unweighted mean of the \<open>w\<close> values that end at the index
  \<open>i\<close>, the root mean square of the errors \<open>actual[i] - movingAverage\<close> at the right
  edges \<open>i = w - 1 .. n - 1\<close>, and the half-width of the \<open>i\<close>-th interval.
\<close>

definition window_mean :: "nat \<Rightarrow> real list \<Rightarrow> nat \<Rightarrow> real" where
  "window_mean w ys i = (\<Sum>t<w. ys ! (i + 1 - w + t)) / real w"

definition ma_rmse :: "nat \<Rightarrow> real list \<Rightarrow> real" where
  "ma_rmse w ys =
     sqrt ((\<Sum>i = w - 1..<length ys. (ys ! i - window_mean w ys i)\<^sup>2) /
           real (length ys - (w - 1)))"

definition ma_width :: "nat \<Rightarrow> real list \<Rightarrow> nat \<Rightarrow> real" where
  "ma_width w ys i = 1.96 * ma_rmse w ys * sqrt (1 + (real i + 1) / real w)"

text \<open>
  The simplified ARIMA as the specification writes it: successive differences; the
  autoregressive step with the fixed coefficient \<open>0.7 / p\<close> on each lag the buffer has;
  the forecasts, each appended to the buffer before the next one is computed; the
  cumulative sums that undo one differencing from a seed; the forecast, undone \<open>d\<close>
  times from the last \<open>d\<close> values of the series; and the half-width of the \<open>i\<close>-th
  interval, from the (population) standard deviation of the series.
\<close>

fun diff_r :: "real list \<Rightarrow> real list" where
  "diff_r (a # b # rest) = (b - a) # diff_r (b # rest)"
| "diff_r _ = []"

definition ar_next :: "nat \<Rightarrow> real list \<Rightarrow> real" where
  "ar_next p buf =
     (\<Sum>j<p. if j < length buf then 0.7 / real p * buf ! (length buf - 1 - j) else 0)"

fun ar_forecasts :: "nat \<Rightarrow> nat \<Rightarrow> real list \<Rightarrow> real list" where
  "ar_forecasts p 0 buf = []"
| "ar_forecasts p (Suc k) buf = ar_next p buf # ar_forecasts p k (buf @ [ar_next p buf])"

fun cumsum_from :: "real \<Rightarrow> real list \<Rightarrow> real list" where
  "cumsum_from s [] = []"
| "cumsum_from s (x # xs) = (s + x) # cumsum_from (s + x) xs"

definition arima_forecast :: "nat \<Rightarrow> nat \<Rightarrow> nat \<Rightarrow> real list \<Rightarrow> real list" where
  "arima_forecast p d k ys =
     foldl (\<lambda>f i. cumsum_from (ys ! (length ys - 1 - i)) f)
           (ar_forecasts p k ((diff_r ^^ d) ys)) [0..<d]"

definition stddev :: "real list \<Rightarrow> real" where
  "stddev ys =
     sqrt ((\<Sum>i<length ys. (ys ! i - (\<Sum>i<length ys. ys ! i) / real (length ys))\<^sup>2) /
           real (length ys))"

definition arima_halfwidth :: "real list \<Rightarrow> nat \<Rightarrow> real" where
  "arima_halfwidth ys i = 1.96 * stddev ys * sqrt (real i + 1)"


text \<open>An oracle whose every draw is \<open>1/2\<close>.\<close>

definition half_draws :: "nat \<Rightarrow> real" where
  "half_draws k = 1 / 2"

section \<open>The arrays a call writes\<close>

text \<open>
  The functions above compute with values. To see which array each \<open>push\<close> and \<open>sort\<close> of
  the source writes, the same methods are embedded a second time over an explicit store. A heap
  is a list of array objects and a reference is an index into it. The expressions \<open>[]\<close>,
  \<open>[...a]\<close>, \<open>a.map(f)\<close>, \<open>a.slice(i, j)\<close> and \<open>new Array(n).fill(v)\<close> allocate a fresh
  object at the end of the heap; \<open>a.push(v)\<close> and \<open>a.sort(f)\<close> update the object that \<open>a\<close>
  refers to; \<open>const y = historicalData\<close> copies the reference. A \<open>for\<close> loop whose bound is the
  length of an array of the heap is read again at every turn, so it is a partial function: were
  the loop to push onto the array that bounds it, it would not return.
\<close>

type_synonym ref = nat

datatype obj = Numbers "jsval list" | Paths "ref list" | Intervals "interval list"

type_synonym heap = "obj list"

definition alloc :: "obj \<Rightarrow> heap \<Rightarrow> ref \<times> heap" where
  "alloc ob h = (length h, h @ [ob])"

definition numbers :: "heap \<Rightarrow> ref \<Rightarrow> jsval list" where
  "numbers h r = (if r < length h then (case h ! r of Numbers xs \<Rightarrow> xs | _ \<Rightarrow> []) else [])"

definition paths :: "heap \<Rightarrow> ref \<Rightarrow> ref list" where
  "paths h r = (if r < length h then (case h ! r of Paths rs \<Rightarrow> rs | _ \<Rightarrow> []) else [])"

definition push :: "ref \<Rightarrow> jsval \<Rightarrow> heap \<Rightarrow> heap" where
  "push r v h =
     (if r < length h then (case h ! r of Numbers xs \<Rightarrow> h[r := Numbers (xs @ [v])] | _ \<Rightarrow> h)
      else h)"

definition push_path :: "ref \<Rightarrow> ref \<Rightarrow> heap \<Rightarrow> heap" where
  "push_path r p h =
     (if r < length h then (case h ! r of Paths rs \<Rightarrow> h[r := Paths (rs @ [p])] | _ \<Rightarrow> h)
      else h)"

definition push_interval :: "ref \<Rightarrow> interval \<Rightarrow> heap \<Rightarrow> heap" where
  "push_interval r iv h =
     (if r < length h then (case h ! r of Intervals ivs \<Rightarrow> h[r := Intervals (ivs @ [iv])] | _ \<Rightarrow> h)
      else h)"

definition sort_in_place :: "ref \<Rightarrow> heap \<Rightarrow> heap" where
  "sort_in_place r h =
     (if r < length h then (case h ! r of Numbers xs \<Rightarrow> h[r := Numbers (js_sort xs)] | _ \<Rightarrow> h)
      else h)"

record result_refs =
  ref_method :: string
  ref_historicalData :: ref
  ref_forecast :: ref
  ref_predictionIntervals :: ref
  ref_statistics :: "(string \<times> jsval) list"

type_synonym outcome = "((js_error + result_refs) \<times> heap) option"

definition linearRegression_st :: "ref \<Rightarrow> options \<Rightarrow> heap \<Rightarrow> result_refs \<times> heap" where
  "linearRegression_st hist opts h =
     (let (x, h1) = alloc (Numbers (map (\<lambda>index. Fin (real (index + 1)))
                                        [0..<length (numbers h hist)])) h;
          y = hist;
          n = Fin (real (length (numbers h1 x)));
          sumX = foldl (\<lambda>s v. js_add s v) (Fin 0) (numbers h1 x);
          sumY = foldl (\<lambda>s v. js_add s v) (Fin 0) (numbers h1 y);
          sumXY = foldl (\<lambda>s (v, yv). js_add s (js_mul v yv)) (Fin 0)
                        (zip (numbers h1 x) (numbers h1 y));
          sumX2 = foldl (\<lambda>s v. js_add s (js_mul v v)) (Fin 0) (numbers h1 x);
          slope = js_div (js_sub (js_mul n sumXY) (js_mul sumX sumY))
                         (js_sub (js_mul n sumX2) (js_mul sumX sumX));
          intercept = js_div (js_sub sumY (js_mul slope sumX)) n;
          (fc, h2) = alloc (Numbers []) h1;
          h3 = foldl (\<lambda>hp i. push fc (js_add intercept (js_mul slope (js_add n (Fin (of_int i))))) hp)
                     h2 (loop_range 1 (opt_periods opts));
          (fitted, h4) = alloc (Numbers (map (\<lambda>xi. js_add intercept (js_mul slope xi))
                                             (numbers h3 x))) h3;
          (residuals, h5) = alloc (Numbers (map (\<lambda>(yi, fi). js_sub yi fi)
                                                (zip (numbers h4 y) (numbers h4 fitted)))) h4;
          sse = foldl (\<lambda>s r. js_add s (js_mul r r)) (Fin 0) (numbers h5 residuals);
          mse = js_div sse n;
          rmse = Math_sqrt mse;
          meanY = js_div sumY n;
          totalSumOfSquares = foldl (\<lambda>s yi. js_add s (Math_pow2 (js_sub yi meanY))) (Fin 0)
                                    (numbers h5 y);
          rSquared = js_sub (Fin 1) (js_div sse totalSumOfSquares);
          standardError = Math_sqrt (js_div sse (js_sub n (Fin 2)));
          (ivs, h6) = alloc (Intervals (intervals_around (numbers h5 fc)
                               (linear_width n meanY totalSumOfSquares standardError))) h5
      in (\<lparr> ref_method = ''linear'', ref_historicalData = hist, ref_forecast = fc,
            ref_predictionIntervals = ivs,
            ref_statistics = [(''slope'', slope), (''intercept'', intercept),
                              (''rSquared'', rSquared), (''rmse'', rmse)] \<rparr>, h6))"

partial_function (option) smooth_st :: "jsval \<Rightarrow> ref \<Rightarrow> ref \<Rightarrow> nat \<Rightarrow> heap \<Rightarrow> heap option" where
  "smooth_st a hist smoothed i h =
     (if i < length (numbers h hist)
      then smooth_st a hist smoothed (i + 1)
             (push smoothed
                (js_add (js_mul a (js_nth (numbers h hist) (int i)))
                        (js_mul (js_sub (Fin 1) a) (js_nth (numbers h smoothed) (int i - 1)))) h)
      else Some h)"

definition exponentialSmoothing_st :: "ref \<Rightarrow> options \<Rightarrow> heap \<Rightarrow> outcome" where
  "exponentialSmoothing_st hist opts h =
     (let a = js_or (opt_alpha opts) (Fin 0.3);
          (smoothed, h1) = alloc (Numbers [js_nth (numbers h hist) 0]) h
      in case smooth_st a hist smoothed 1 h1 of
           None \<Rightarrow> None
         | Some h2 \<Rightarrow>
            (let lastSmoothed = js_nth (numbers h2 smoothed) (int (length (numbers h2 smoothed)) - 1)
             in case Array_fill (opt_periods opts) lastSmoothed of
                  Inl e \<Rightarrow> Some (Inl e, h2)
                | Inr filled \<Rightarrow>
                   (let (fc, h3) = alloc (Numbers filled) h2;
                        (errors, h4) = alloc (Numbers
                           (map (\<lambda>(actual, i). if i = 0 then Fin 0
                                   else js_sub actual (js_nth (numbers h3 smoothed) (int i - 1)))
                                (zip (numbers h3 hist) [0..<length (numbers h3 hist)]))) h3;
                        sse = foldl (\<lambda>s e. js_add s (js_mul e e)) (Fin 0) (numbers h4 errors);
                        mse = js_div sse (Fin (real (length (numbers h4 hist)) - 1));
                        rmse = Math_sqrt mse;
                        standardError = Math_sqrt mse;
                        (ivs, h5) = alloc (Intervals (intervals_around (numbers h4 fc)
                                             (exponential_width standardError))) h4
                    in Some (Inr \<lparr> ref_method = ''exponential'', ref_historicalData = hist,
                                    ref_forecast = fc, ref_predictionIntervals = ivs,
                                    ref_statistics = [(''alpha'', a), (''rmse'', rmse)] \<rparr>, h5))))"

partial_function (option) average_loop :: "int \<Rightarrow> ref \<Rightarrow> ref \<Rightarrow> int \<Rightarrow> heap \<Rightarrow> heap option" where
  "average_loop windowSize hist movingAverages i h =
     (if i < int (length (numbers h hist))
      then (let (window, h1) = alloc (Numbers (js_slice (numbers h hist) (i - windowSize + 1) (i + 1))) h;
                average = js_div (foldl (\<lambda>s v. js_add s v) (Fin 0) (numbers h1 window))
                                 (Fin (of_int windowSize))
            in average_loop windowSize hist movingAverages (i + 1) (push movingAverages average h1))
      else Some h)"

partial_function (option) error_loop :: "int \<Rightarrow> ref \<Rightarrow> ref \<Rightarrow> ref \<Rightarrow> int \<Rightarrow> heap \<Rightarrow> heap option" where
  "error_loop windowSize hist movingAverages errors i h =
     (if i < int (length (numbers h hist))
      then (let actual = js_nth (numbers h hist) i;
                predicted = js_nth (numbers h movingAverages) (i - windowSize + 1)
            in error_loop windowSize hist movingAverages errors (i + 1)
                 (push errors (js_sub actual predicted) h))
      else Some h)"

definition movingAverage_st :: "ref \<Rightarrow> options \<Rightarrow> heap \<Rightarrow> outcome" where
  "movingAverage_st hist opts h =
     (let windowSize = int_or (opt_windowSize opts) 3
      in if int (length (numbers h hist)) < windowSize then Some (Inl window_error, h)
         else
           (let (movingAverages, h1) = alloc (Numbers []) h
            in case average_loop windowSize hist movingAverages (windowSize - 1) h1 of
                 None \<Rightarrow> None
               | Some h2 \<Rightarrow>
                  (let lastMA = js_nth (numbers h2 movingAverages)
                                       (int (length (numbers h2 movingAverages)) - 1)
                   in case Array_fill (opt_periods opts) lastMA of
                        Inl e \<Rightarrow> Some (Inl e, h2)
                      | Inr filled \<Rightarrow>
                         (let (fc, h3) = alloc (Numbers filled) h2;
                              (errors, h4) = alloc (Numbers []) h3
                          in case error_loop windowSize hist movingAverages errors (windowSize - 1) h4 of
                               None \<Rightarrow> None
                             | Some h5 \<Rightarrow>
                                (let sse = foldl (\<lambda>s e. js_add s (js_mul e e)) (Fin 0) (numbers h5 errors);
                                     mse = js_div sse (Fin (real (length (numbers h5 errors))));
                                     rmse = Math_sqrt mse;
                                     standardError = Math_sqrt mse;
                                     (ivs, h6) = alloc (Intervals (intervals_around (numbers h5 fc)
                                                    (average_width windowSize standardError))) h5
                                 in Some (Inr \<lparr> ref_method = ''moving-average'',
                                                 ref_historicalData = hist, ref_forecast = fc,
                                                 ref_predictionIntervals = ivs,
                                                 ref_statistics =
                                                   [(''windowSize'', Fin (of_int windowSize)),
                                                    (''rmse'', rmse)] \<rparr>, h6))))))"

partial_function (option) diff_loop :: "ref \<Rightarrow> ref \<Rightarrow> nat \<Rightarrow> heap \<Rightarrow> heap option" where
  "diff_loop data result i h =
     (if i < length (numbers h data)
      then diff_loop data result (i + 1)
             (push result (js_sub (js_nth (numbers h data) (int i))
                                  (js_nth (numbers h data) (int i - 1))) h)
      else Some h)"

definition diff_st :: "ref \<Rightarrow> heap \<Rightarrow> (ref \<times> heap) option" where
  "diff_st data h =
     (let (result, h1) = alloc (Numbers []) h
      in case diff_loop data result 1 h1 of None \<Rightarrow> None | Some h2 \<Rightarrow> Some (result, h2))"

partial_function (option) undiff_loop :: "ref \<Rightarrow> ref \<Rightarrow> nat \<Rightarrow> heap \<Rightarrow> heap option" where
  "undiff_loop diffData result i h =
     (if i < length (numbers h diffData)
      then undiff_loop diffData result (i + 1)
             (push result (js_add (js_nth (numbers h result) (int i))
                                  (js_nth (numbers h diffData) (int i))) h)
      else Some h)"

definition undiff_st :: "ref \<Rightarrow> jsval \<Rightarrow> heap \<Rightarrow> (ref \<times> heap) option" where
  "undiff_st diffData lastValue h =
     (let (result, h1) = alloc (Numbers [lastValue]) h
      in case undiff_loop diffData result 0 h1 of
           None \<Rightarrow> None
         | Some h2 \<Rightarrow>
            Some (alloc (Numbers (js_slice (numbers h2 result) 1
                                           (int (length (numbers h2 result))))) h2))"

definition standardDeviation_st :: "ref \<Rightarrow> heap \<Rightarrow> jsval \<times> heap" where
  "standardDeviation_st data h =
     (let mean = js_div (foldl (\<lambda>s v. js_add s v) (Fin 0) (numbers h data))
                        (Fin (real (length (numbers h data))));
          (squaredDiffs, h1) = alloc (Numbers (map (\<lambda>v. Math_pow2 (js_sub v mean))
                                                   (numbers h data))) h;
          variance = js_div (foldl (\<lambda>s v. js_add s v) (Fin 0) (numbers h1 squaredDiffs))
                            (Fin (real (length (numbers h1 data))))
      in (Math_sqrt variance, h1))"

text \<open>\<open>for (let i = 0; i < d; i++) diffData = this.diff(diffData)\<close>.\<close>

fun diff_times :: "nat \<Rightarrow> ref \<Rightarrow> heap \<Rightarrow> (ref \<times> heap) option" where
  "diff_times 0 diffData h = Some (diffData, h)"
| "diff_times (Suc k) diffData h =
     (case diff_st diffData h of
        None \<Rightarrow> None
      | Some (diffData', h1) \<Rightarrow> diff_times k diffData' h1)"

text \<open>The forecast loop: each forecast is pushed onto \<open>diffForecast\<close> and onto \<open>diffData\<close>.\<close>

fun ar_loop_st :: "ref \<Rightarrow> int \<Rightarrow> ref \<Rightarrow> ref \<Rightarrow> nat \<Rightarrow> heap \<Rightarrow> heap" where
  "ar_loop_st arParams p diffData diffForecast 0 h = h"
| "ar_loop_st arParams p diffData diffForecast (Suc k) h =
     (let f = ar_component (numbers h arParams) p (numbers h diffData)
      in ar_loop_st arParams p diffData diffForecast k (push diffData f (push diffForecast f h)))"

text \<open>
  \<open>for (let i = 0; i < d; i++) forecast = this.undiff(forecast, historicalData[length - 1 - i])\<close>.
\<close>

fun undiff_times :: "ref \<Rightarrow> int list \<Rightarrow> ref \<Rightarrow> heap \<Rightarrow> (ref \<times> heap) option" where
  "undiff_times hist [] fc h = Some (fc, h)"
| "undiff_times hist (i # rest) fc h =
     (case undiff_st fc (js_nth (numbers h hist) (int (length (numbers h hist)) - 1 - i)) h of
        None \<Rightarrow> None
      | Some (fc', h1) \<Rightarrow> undiff_times hist rest fc' h1)"

definition arima_st :: "ref \<Rightarrow> options \<Rightarrow> heap \<Rightarrow> outcome" where
  "arima_st hist opts h =
     (let p = int_or (opt_p opts) 1;
          d = int_or (opt_d opts) 0;
          q = int_or (opt_q opts) 1;
          (diffData0, h1) = alloc (Numbers (numbers h hist)) h
      in case diff_times (nat d) diffData0 h1 of
           None \<Rightarrow> None
         | Some (diffData, h2) \<Rightarrow>
            (case Array_fill (Some p) (js_div (Fin 0.7) (Fin (of_int p))) of
               Inl e \<Rightarrow> Some (Inl e, h2)
             | Inr ars \<Rightarrow>
                (let (arParams, h3) = alloc (Numbers ars) h2
                 in case Array_fill (Some q) (js_div (Fin 0.3) (Fin (of_int q))) of
                      Inl e \<Rightarrow> Some (Inl e, h3)
                    | Inr mas \<Rightarrow>
                       (let (maParams, h4) = alloc (Numbers mas) h3;
                            (diffForecast, h5) = alloc (Numbers []) h4;
                            h6 = ar_loop_st arParams p diffData diffForecast
                                   (loop_count (opt_periods opts)) h5;
                            (fc0, h7) = alloc (Numbers (numbers h6 diffForecast)) h6
                        in case undiff_times hist [0 .. d - 1] fc0 h7 of
                             None \<Rightarrow> None
                           | Some (fc, h8) \<Rightarrow>
                              (let (stdDev, h9) = standardDeviation_st hist h8;
                                   (ivs, h10) = alloc (Intervals (intervals_around (numbers h9 fc)
                                                   (arima_width stdDev))) h9
                               in Some (Inr \<lparr> ref_method = ''arima'', ref_historicalData = hist,
                                               ref_forecast = fc, ref_predictionIntervals = ivs,
                                               ref_statistics =
                                                 [(''p'', Fin (of_int p)), (''d'', Fin (of_int d)),
                                                  (''q'', Fin (of_int q))] \<rparr>, h10))))))"

datatype input_ref = NoArray | ArrayAt ref

definition generateForecast_st :: "input_ref \<Rightarrow> options \<Rightarrow> heap \<Rightarrow> outcome" where
  "generateForecast_st arg opts h =
     (let forecastOptions = merge_defaults opts
      in case arg of
           NoArray \<Rightarrow> Some (Inl data_error, h)
         | ArrayAt hist \<Rightarrow>
             if length (numbers h hist) < 2 then Some (Inl data_error, h)
             else (case opt_method forecastOptions of
                     None \<Rightarrow> Some (Inl (method_error ''undefined''), h)
                   | Some m \<Rightarrow>
                       if m = ''linear''
                       then (let (r, h1) = linearRegression_st hist forecastOptions h
                             in Some (Inr r, h1))
                       else if m = ''exponential'' then exponentialSmoothing_st hist forecastOptions h
                       else if m = ''moving-average'' then movingAverage_st hist forecastOptions h
                       else if m = ''arima'' then arima_st hist forecastOptions h
                       else Some (Inl (method_error m), h)))"

partial_function (option) percent_loop :: "ref \<Rightarrow> ref \<Rightarrow> nat \<Rightarrow> heap \<Rightarrow> heap option" where
  "percent_loop hist pcs i h =
     (if i < length (numbers h hist)
      then percent_loop hist pcs (i + 1)
             (push pcs (js_sub (js_div (js_nth (numbers h hist) (int i))
                                       (js_nth (numbers h hist) (int i - 1))) (Fin 1)) h)
      else Some h)"

text \<open>The inner loop of one simulation, \<open>j = from .. from + count - 1\<close>.\<close>

fun simulate_st ::
  "(nat \<Rightarrow> real) \<Rightarrow> jsval \<Rightarrow> jsval \<Rightarrow> ref \<Rightarrow> nat \<Rightarrow> nat \<Rightarrow> nat \<Rightarrow> heap \<Rightarrow> nat \<times> heap" where
  "simulate_st rnd mean stdDev simulation j 0 k h = (k, h)"
| "simulate_st rnd mean stdDev simulation j (Suc c) k h =
     (let (rand, k1) = boxMullerTransform rnd k;
          percentChange = js_add mean (js_mul stdDev rand);
          newValue = js_mul (js_nth (numbers h simulation) (int j)) (js_add (Fin 1) percentChange)
      in simulate_st rnd mean stdDev simulation (j + 1) c k1 (push simulation newValue h))"

fun run_simulations_st ::
  "(nat \<Rightarrow> real) \<Rightarrow> jsval \<Rightarrow> jsval \<Rightarrow> nat \<Rightarrow> jsval \<Rightarrow> ref \<Rightarrow> nat \<Rightarrow> nat \<Rightarrow> heap \<Rightarrow> nat \<times> heap" where
  "run_simulations_st rnd mean stdDev periods lastValue simulations 0 k h = (k, h)"
| "run_simulations_st rnd mean stdDev periods lastValue simulations (Suc i) k h =
     (let (simulation, h1) = alloc (Numbers [lastValue]) h;
          (k1, h2) = simulate_st rnd mean stdDev simulation 0 periods k h1;
          (sliced, h3) = alloc (Numbers (js_slice (numbers h2 simulation) 1
                                                  (int (length (numbers h2 simulation))))) h2
      in run_simulations_st rnd mean stdDev periods lastValue simulations i k1
           (push_path simulations sliced h3))"

text \<open>The second loop, over the forecast periods \<open>i = from .. from + count - 1\<close>.\<close>

fun summary_loop :: "ref \<Rightarrow> int \<Rightarrow> jsval \<Rightarrow> ref \<Rightarrow> ref \<Rightarrow> nat \<Rightarrow> nat \<Rightarrow> heap \<Rightarrow> heap" where
  "summary_loop simulations iterations confidenceLevel fc pis i 0 h = h"
| "summary_loop simulations iterations confidenceLevel fc pis i (Suc c) h =
     (let (periodValues, h1) = alloc (Numbers (map (\<lambda>sim. js_nth (numbers h sim) (int i))
                                                   (paths h simulations))) h;
          h2 = sort_in_place periodValues h1;
          mean = js_div (foldl (\<lambda>s v. js_add s v) (Fin 0) (numbers h2 periodValues))
                        (Fin (of_int iterations));
          lowerIndex = Math_floor (js_div (js_mul (Fin (of_int iterations))
                                                  (js_sub (Fin 1) confidenceLevel)) (Fin 2));
          upperIndex = Math_floor (js_mul (Fin (of_int iterations))
                         (js_sub (Fin 1) (js_div (js_sub (Fin 1) confidenceLevel) (Fin 2))));
          h3 = push fc mean h2;
          h4 = push_interval pis \<lparr> lower = js_index (numbers h3 periodValues) lowerIndex,
                                    upper = js_index (numbers h3 periodValues) upperIndex \<rparr> h3
      in summary_loop simulations iterations confidenceLevel fc pis (i + 1) c h4)"

definition monteCarloSimulation_st ::
  "(nat \<Rightarrow> real) \<Rightarrow> ref \<Rightarrow> options \<Rightarrow> heap \<Rightarrow> (result_refs \<times> heap) option" where
  "monteCarloSimulation_st rnd hist opts h =
     (let iterations = int_or (opt_iterations opts) 1000;
          periods = int_or (opt_periods opts) 5;
          confidenceLevel = js_or (opt_confidence opts) (Fin 0.95);
          (pcs, h1) = alloc (Numbers []) h
      in case percent_loop hist pcs 1 h1 of
           None \<Rightarrow> None
         | Some h2 \<Rightarrow>
            (let mean = js_div (foldl (\<lambda>s v. js_add s v) (Fin 0) (numbers h2 pcs))
                               (Fin (real (length (numbers h2 pcs))));
                 variance = js_div (foldl (\<lambda>s v. js_add s (Math_pow2 (js_sub v mean))) (Fin 0)
                                          (numbers h2 pcs))
                                   (Fin (real (length (numbers h2 pcs))));
                 stdDev = Math_sqrt variance;
                 (simulations, h3) = alloc (Paths []) h2;
                 lastValue = js_nth (numbers h3 hist) (int (length (numbers h3 hist)) - 1);
                 (k, h4) = run_simulations_st rnd mean stdDev (nat periods) lastValue simulations
                             (nat iterations) 0 h3;
                 (fc, h5) = alloc (Numbers []) h4;
                 (pis, h6) = alloc (Intervals []) h5;
                 h7 = summary_loop simulations iterations confidenceLevel fc pis 0 (nat periods) h6
             in Some (\<lparr> ref_method = ''monte-carlo'', ref_historicalData = hist, ref_forecast = fc,
                        ref_predictionIntervals = pis,
                        ref_statistics = [(''iterations'', Fin (of_int iterations)), (''mean'', mean),
                                          (''stdDev'', stdDev)] \<rparr>, h7)))"

text \<open>
  \<open>keeps n h h'\<close>: the heap \<open>h'\<close> has every object of \<open>h\<close>, and the first \<open>n\<close> of them are
  unchanged.
\<close>

definition keeps :: "nat \<Rightarrow> heap \<Rightarrow> heap \<Rightarrow> bool" where
  "keeps n h h' = (length h \<le> length h' \<and> take n h' = take n h)"

text \<open>A heap that holds one series, and a call of the ARIMA method for two periods.\<close>

definition arima_options :: options where
  "arima_options = no_options \<lparr> opt_method := Some ''arima'', opt_periods := Some 2 \<rparr>"

definition example_heap :: heap where
  "example_heap = [Numbers [Fin 1, Fin 2, Fin 3]]"

text \<open>
  Reading a result back from the heap: the arrays its references point to. \<open>holds h r xs\<close>
  says that the reference \<open>r\<close> of the heap \<open>h\<close> points to the array of numbers \<open>xs\<close>.
\<close>

definition intervals :: "heap \<Rightarrow> ref \<Rightarrow> interval list" where
  "intervals h r = (if r < length h then (case h ! r of Intervals ivs \<Rightarrow> ivs | _ \<Rightarrow> []) else [])"

definition read_result :: "heap \<Rightarrow> result_refs \<Rightarrow> forecastResult" where
  "read_result h r =
     \<lparr> method_name = ref_method r,
       historicalData = numbers h (ref_historicalData r),
       forecast = numbers h (ref_forecast r),
       predictionIntervals = intervals h (ref_predictionIntervals r),
       statistics = ref_statistics r \<rparr>"

definition read_outcome :: "heap \<Rightarrow> js_error + result_refs \<Rightarrow> js_error + forecastResult" where
  "read_outcome h res = (case res of Inl e \<Rightarrow> Inl e | Inr r \<Rightarrow> Inr (read_result h r))"

definition holds :: "heap \<Rightarrow> ref \<Rightarrow> jsval list \<Rightarrow> bool" where
  "holds h r xs = (r < length h \<and> h ! r = Numbers xs)"


section \<open>Arithmetic of the special values\<close>

lemma js_mul_NaN_right [simp]: "js_mul v NaN = NaN"
  by (cases v) simp_all

lemma js_mul_NaN_left [simp]: "js_mul NaN v = NaN"
  by (cases v) simp_all

lemma js_add_NaN_right [simp]: "js_add v NaN = NaN"
  by (cases v) simp_all

lemma js_sub_Fin [simp]: "js_sub (Fin a) (Fin b) = Fin (a - b)"
  by (simp add: js_sub_def)

lemma foldl_js_add_NaN_acc: "foldl js_add NaN xs = NaN"
  by (induction xs) simp_all

lemma foldl_js_add_replicate_NaN:
  "0 < n \<Longrightarrow> foldl js_add (Fin a) (replicate n NaN) = NaN"
  by (cases n) (simp_all add: foldl_js_add_NaN_acc)

lemma map_upt_const: "(\<And>i. i < n \<Longrightarrow> f i = c) \<Longrightarrow> map f [0..<n] = replicate n c"
  by (simp add: list_eq_iff_nth_eq)

section \<open>Sums of finite numbers\<close>

lemma sum_list_upt: "sum_list (map f [0..<n]) = (\<Sum>i<n. f i)"
  by (simp add: interv_sum_list_conv_sum_set_nat atLeast0LessThan)

lemma foldl_js_add_fin:
  assumes "\<And>v. v \<in> set xs \<Longrightarrow> f v = Fin (g v)"
  shows "foldl (\<lambda>s v. js_add s (f v)) (Fin a) xs = Fin (a + sum_list (map g xs))"
  using assms by (induction xs arbitrary: a) (simp_all add: add.assoc)

lemma foldl_js_add_Fin: "foldl js_add (Fin a) (map Fin xs) = Fin (a + sum_list xs)"
  by (induction xs arbitrary: a) (simp_all add: add.assoc)

lemma foldl_js_add_upt:
  "foldl (\<lambda>s v. js_add s (f v)) (Fin 0) (map h [0..<n]) = Fin (\<Sum>i<n. g i)"
  if "\<And>i. i < n \<Longrightarrow> f (h i) = Fin (g i)"
proof -
  have "foldl (\<lambda>s v. js_add s (f v)) (Fin 0) (map h [0..<n])
        = foldl (\<lambda>s i. js_add s (f (h i))) (Fin 0) [0..<n]"
    by (simp add: foldl_map)
  also have "\<dots> = Fin (0 + sum_list (map g [0..<n]))"
    by (rule foldl_js_add_fin) (simp add: that)
  finally show ?thesis by (simp add: sum_list_upt)
qed

lemma map_Fin_upt: "map Fin ys = map (\<lambda>i. Fin (ys ! i)) [0..<length ys]"
  by (rule nth_equalityI) simp_all

lemma zip_upt_maps:
  "zip (map f [0..<n]) (map g [0..<n]) = map (\<lambda>i. (f i, g i)) [0..<n]"
  by (rule nth_equalityI) simp_all

section \<open>The shape of a result\<close>

lemma length_intervals_around [simp]: "length (intervals_around fc w) = length fc"
  by (simp add: intervals_around_def)

lemma nth_intervals_around:
  "i < length fc \<Longrightarrow>
   intervals_around fc w ! i = \<lparr> lower = js_sub (fc ! i) (w i), upper = js_add (fc ! i) (w i) \<rparr>"
  by (simp add: intervals_around_def)

lemma nonneg_Math_sqrt [simp]: "nonneg_or_nan (Math_sqrt v)"
  by (cases v) simp_all

lemma nonneg_js_mul: "nonneg_or_nan a \<Longrightarrow> nonneg_or_nan b \<Longrightarrow> nonneg_or_nan (js_mul a b)"
  by (cases a; cases b) simp_all

lemma nonneg_tValue [simp]: "nonneg_or_nan tValue"
  by (simp add: tValue_def)

lemma interval_order:
  assumes "nonneg_or_nan w" and "js_sub v w \<noteq> NaN" and "js_add v w \<noteq> NaN"
  shows "js_le (js_sub v w) v \<and> js_le v (js_add v w)"
  using assms by (cases v; cases w) (simp_all add: js_sub_def)

lemma Array_fill_Inr:
  "Array_fill (Some k) v = Inr fc \<Longrightarrow> 0 \<le> k \<and> fc = replicate (nat k) v"
  by (auto simp: Array_fill_def split: if_splits)


lemma intervals_around_order:
  assumes "\<And>i. nonneg_or_nan (w i)" and "i < length fc"
    and "lower (intervals_around fc w ! i) \<noteq> NaN" and "upper (intervals_around fc w ! i) \<noteq> NaN"
  shows "js_le (lower (intervals_around fc w ! i)) (fc ! i) \<and>
         js_le (fc ! i) (upper (intervals_around fc w ! i))"
  using assms(3,4) interval_order[OF assms(1), of "fc ! i" i]
  by (simp add: nth_intervals_around[OF assms(2)])

lemma nonneg_linear_width: "nonneg_or_nan se \<Longrightarrow> nonneg_or_nan (linear_width n m t se i)"
  by (simp add: linear_width_def Let_def nonneg_js_mul)

lemma nonneg_exponential_width: "nonneg_or_nan se \<Longrightarrow> nonneg_or_nan (exponential_width se i)"
  by (simp add: exponential_width_def nonneg_js_mul)

lemma nonneg_average_width: "nonneg_or_nan se \<Longrightarrow> nonneg_or_nan (average_width ws se i)"
  by (simp add: average_width_def nonneg_js_mul)

lemma nonneg_arima_width: "nonneg_or_nan sd \<Longrightarrow> nonneg_or_nan (arima_width sd i)"
  by (simp add: arima_width_def nonneg_js_mul)

lemma nonneg_standardDeviation [simp]: "nonneg_or_nan (standardDeviation xs)"
  by (simp add: standardDeviation_def Let_def)

lemma linearRegression_shape:
  "method_name (linearRegression hist opts) = ''linear'' \<and>
   length (forecast (linearRegression hist opts)) = length (loop_range 1 (opt_periods opts)) \<and>
   (\<exists>n m t se. predictionIntervals (linearRegression hist opts)
        = intervals_around (forecast (linearRegression hist opts)) (linear_width n m t (Math_sqrt se)))"
  unfolding linearRegression_def Let_def by auto

lemma exponentialSmoothing_shape:
  assumes "exponentialSmoothing hist opts = Inr r"
  shows "method_name r = ''exponential'' \<and>
         (\<exists>v. Array_fill (opt_periods opts) v = Inr (forecast r)) \<and>
         (\<exists>se. predictionIntervals r = intervals_around (forecast r) (exponential_width (Math_sqrt se)))"
  using assms unfolding exponentialSmoothing_def Let_def
  by (auto split: sum.splits)


lemma movingAverage_shape:
  assumes "movingAverage hist opts = Inr r"
  shows "method_name r = ''moving-average'' \<and>
         (\<exists>v. Array_fill (opt_periods opts) v = Inr (forecast r)) \<and>
         (\<exists>ws se. predictionIntervals r = intervals_around (forecast r) (average_width ws (Math_sqrt se))) \<and>
         int_or (opt_windowSize opts) 3 \<le> int (length hist)"
  using assms unfolding movingAverage_def Let_def
  by (auto split: sum.splits if_splits) (rule exI, rule exI, rule refl)



lemma length_undiff [simp]: "length (undiff xs v) = length xs"
  by (induction xs arbitrary: v) (simp_all add: Let_def)

lemma length_undiff_chain [simp]:
  "length (foldl (\<lambda>f i. undiff f (g i)) xs js) = length xs"
  by (induction js arbitrary: xs) simp_all

lemma length_ar_loop [simp]: "length (ar_loop ps p k buf) = k"
  by (induction k arbitrary: buf) (simp_all add: Let_def)

lemma arima_shape:
  assumes "arima hist opts = Inr r"
  shows "method_name r = ''arima'' \<and>
         length (forecast r) = loop_count (opt_periods opts) \<and>
         predictionIntervals r = intervals_around (forecast r) (arima_width (standardDeviation hist))"
  using assms unfolding arima_def Let_def
  by (auto split: sum.splits)


section \<open>The failures of the dispatcher\<close>

lemma merge_defaults_simps [simp]:
  "opt_method (merge_defaults opts) = Some (method_of opts)"
  "opt_periods (merge_defaults opts) = Some (periods_of opts)"
  "opt_windowSize (merge_defaults opts) = opt_windowSize opts"
  "opt_alpha (merge_defaults opts) = opt_alpha opts"
  "opt_p (merge_defaults opts) = opt_p opts"
  "opt_d (merge_defaults opts) = opt_d opts"
  "opt_q (merge_defaults opts) = opt_q opts"
  by (simp_all add: merge_defaults_def method_of_def periods_of_def)

lemma generateForecast_invalid:
  "\<not> valid_series arg \<Longrightarrow> generateForecast arg opts = Inl data_error"
  by (cases arg) (simp_all add: generateForecast_def valid_series_def Let_def)

lemma generateForecast_valid:
  assumes "valid_series arg"
  obtains hist where "arg = ArrayOf hist" "2 \<le> length hist" "series_length arg = length hist"
    "generateForecast arg opts =
       (if method_of opts = ''linear'' then Inr (linearRegression hist (merge_defaults opts))
        else if method_of opts = ''exponential'' then exponentialSmoothing hist (merge_defaults opts)
        else if method_of opts = ''moving-average'' then movingAverage hist (merge_defaults opts)
        else if method_of opts = ''arima'' then arima hist (merge_defaults opts)
        else Inl (method_error (method_of opts)))"
  using assms
  by (cases arg) (simp_all add: generateForecast_def valid_series_def series_length_def Let_def)

lemma errors_distinct [simp]:
  "data_error \<noteq> method_error m" "method_error m \<noteq> data_error"
  "window_error \<noteq> method_error m" "method_error m \<noteq> window_error"
  "data_error \<noteq> window_error" "window_error \<noteq> data_error"
  "length_error \<noteq> data_error" "data_error \<noteq> length_error"
  "length_error \<noteq> window_error" "window_error \<noteq> length_error"
  "length_error \<noteq> method_error m" "method_error m \<noteq> length_error"
  by (simp_all add: data_error_def method_error_def window_error_def length_error_def)











section \<open>Lengths and order of the intervals\<close>

lemma generateForecast_order:
  assumes g: "generateForecast arg opts = Inr r" and k: "0 \<le> periods_of opts"
  shows "int (length (forecast r)) = periods_of opts \<and>
         (\<exists>w. (\<forall>i. nonneg_or_nan (w i)) \<and> predictionIntervals r = intervals_around (forecast r) w)"
proof -
  have v: "valid_series arg" using g generateForecast_invalid[of arg opts] by auto
  then obtain hist where h: "arg = ArrayOf hist"
    and g': "generateForecast arg opts =
       (if method_of opts = ''linear'' then Inr (linearRegression hist (merge_defaults opts))
        else if method_of opts = ''exponential'' then exponentialSmoothing hist (merge_defaults opts)
        else if method_of opts = ''moving-average'' then movingAverage hist (merge_defaults opts)
        else if method_of opts = ''arima'' then arima hist (merge_defaults opts)
        else Inl (method_error (method_of opts)))"
    by (rule generateForecast_valid)
  consider (lin) "method_of opts = ''linear''" | (exp) "method_of opts = ''exponential''"
    | (avg) "method_of opts = ''moving-average''" | (ari) "method_of opts = ''arima''"
    | (other) "method_of opts \<notin> {''linear'', ''exponential'', ''moving-average'', ''arima''}"
    by auto
  then show ?thesis
  proof cases
    case lin
    then have r: "r = linearRegression hist (merge_defaults opts)" using g g' by simp
    obtain n m t se where iv: "predictionIntervals r = intervals_around (forecast r) (linear_width n m t (Math_sqrt se))"
      using linearRegression_shape[of hist "merge_defaults opts"] unfolding r by blast
    have "length (forecast r) = nat (periods_of opts)"
      using linearRegression_shape[of hist "merge_defaults opts"] unfolding r
      by (simp add: loop_range_def)
    then show ?thesis using k iv by (auto intro!: exI[of _ "linear_width n m t (Math_sqrt se)"] nonneg_linear_width)
  next
    case exp
    then have e: "exponentialSmoothing hist (merge_defaults opts) = Inr r" using g g' by simp
    from exponentialSmoothing_shape[OF e] obtain v se where
      "Array_fill (Some (periods_of opts)) v = Inr (forecast r)"
      "predictionIntervals r = intervals_around (forecast r) (exponential_width (Math_sqrt se))"
      by auto
    then show ?thesis using k
      by (auto dest!: Array_fill_Inr intro!: exI[of _ "exponential_width (Math_sqrt se)"] nonneg_exponential_width)
  next
    case avg
    then have e: "movingAverage hist (merge_defaults opts) = Inr r" using g g' by simp
    from movingAverage_shape[OF e] obtain v ws se where
      "Array_fill (Some (periods_of opts)) v = Inr (forecast r)"
      "predictionIntervals r = intervals_around (forecast r) (average_width ws (Math_sqrt se))"
      by auto
    then show ?thesis using k
      by (auto dest!: Array_fill_Inr intro!: exI[of _ "average_width ws (Math_sqrt se)"] nonneg_average_width)
  next
    case ari
    then have e: "arima hist (merge_defaults opts) = Inr r" using g g' by simp
    from arima_shape[OF e] show ?thesis using k
      by (auto simp: loop_count_def intro!: exI[of _ "arima_width (standardDeviation hist)"] nonneg_arima_width)
  next
    case other
    then show ?thesis using g g' by auto
  qed
qed

lemma length_monteCarlo:
  "length (forecast (monteCarloSimulation rnd hist opts)) = nat (int_or (opt_periods opts) 5) \<and>
   length (predictionIntervals (monteCarloSimulation rnd hist opts)) = nat (int_or (opt_periods opts) 5)"
  by (simp add: monteCarloSimulation_def Let_def)

text \<open>
  Claim C1 (corrected). Whenever \<open>generateForecast\<close> returns a result and \<open>periods\<close>
  is not negative, the forecast and the prediction intervals have \<open>periods\<close> entries,
  and every interval whose two bounds are numbers (not \<open>NaN\<close>) encloses its forecast:
  \<open>lower <= forecast <= upper\<close>. The Monte Carlo simulation returns \<open>periods\<close>
  entries as well (after its own default); the order of its percentile bounds and its
  mean is not part of the statement.
\<close>

theorem forecast_lengths_and_order:
  "(\<forall>r. generateForecast arg opts = Inr r \<and> 0 \<le> periods_of opts \<longrightarrow>
      int (length (forecast r)) = periods_of opts \<and>
      length (predictionIntervals r) = length (forecast r) \<and>
      (\<forall>i < length (forecast r).
         lower (predictionIntervals r ! i) \<noteq> NaN \<and> upper (predictionIntervals r ! i) \<noteq> NaN \<longrightarrow>
         js_le (lower (predictionIntervals r ! i)) (forecast r ! i) \<and>
         js_le (forecast r ! i) (upper (predictionIntervals r ! i)))) \<and>
   (0 \<le> int_or (opt_periods opts) 5 \<longrightarrow>
      int (length (forecast (monteCarloSimulation rnd hist opts))) = int_or (opt_periods opts) 5 \<and>
      length (predictionIntervals (monteCarloSimulation rnd hist opts))
        = length (forecast (monteCarloSimulation rnd hist opts)))"
proof (intro conjI allI impI)
  fix r assume a: "generateForecast arg opts = Inr r \<and> 0 \<le> periods_of opts"
  from generateForecast_order[of arg opts r] a obtain w where
    l: "int (length (forecast r)) = periods_of opts" and w: "\<And>i. nonneg_or_nan (w i)"
    and iv: "predictionIntervals r = intervals_around (forecast r) w"
    by auto
  show "int (length (forecast r)) = periods_of opts" by (rule l)
  show "length (predictionIntervals r) = length (forecast r)" by (simp add: iv)
  fix i assume "i < length (forecast r)"
    and "lower (predictionIntervals r ! i) \<noteq> NaN \<and> upper (predictionIntervals r ! i) \<noteq> NaN"
  then show "js_le (lower (predictionIntervals r ! i)) (forecast r ! i)"
    "js_le (forecast r ! i) (upper (predictionIntervals r ! i))"
    using intervals_around_order[of w i "forecast r"] w unfolding iv by simp_all
next
  assume "0 \<le> int_or (opt_periods opts) 5"
  then show "int (length (forecast (monteCarloSimulation rnd hist opts))) = int_or (opt_periods opts) 5"
    "length (predictionIntervals (monteCarloSimulation rnd hist opts))
        = length (forecast (monteCarloSimulation rnd hist opts))"
    by (simp_all add: length_monteCarlo)
qed

lemma movingAverage_example:
  "generateForecast (ArrayOf [Fin 1, Fin 2, Fin 3, Fin 4, Fin 5, Fin 6])
     (no_options\<lparr> opt_method := Some ''moving-average'', opt_periods := Some 2 \<rparr>) =
   Inr \<lparr> method_name = ''moving-average'',
         historicalData = [Fin 1, Fin 2, Fin 3, Fin 4, Fin 5, Fin 6],
         forecast = [Fin 5, Fin 5],
         predictionIntervals =
           [\<lparr> lower = Fin (5 - 49 * sqrt (4 / 3) / 25), upper = Fin (5 + 49 * sqrt (4 / 3) / 25) \<rparr>,
            \<lparr> lower = Fin (5 - 49 * sqrt (5 / 3) / 25), upper = Fin (5 + 49 * sqrt (5 / 3) / 25) \<rparr>],
         statistics = [(''windowSize'', Fin 3), (''rmse'', Fin 1)] \<rparr>"
  by (simp add: generateForecast_def merge_defaults_def no_options_def movingAverage_def Let_def
        int_or_def upto.simps js_slice_def slice_bound_def js_nth_def Array_fill_def
        intervals_around_def average_width_def tValue_def numeral_2_eq_2)

theorem forecast_lengths_and_order_witness:
  "0 \<le> periods_of (no_options\<lparr> opt_method := Some ''moving-average'', opt_periods := Some 2 \<rparr>) \<and>
   0 \<le> int_or (opt_periods (no_options\<lparr> opt_method := Some ''moving-average'', opt_periods := Some 2 \<rparr>)) 5 \<and>
   (\<exists>r. generateForecast (ArrayOf [Fin 1, Fin 2, Fin 3, Fin 4, Fin 5, Fin 6])
           (no_options\<lparr> opt_method := Some ''moving-average'', opt_periods := Some 2 \<rparr>) = Inr r \<and>
        length (forecast r) = 2 \<and> length (predictionIntervals r) = 2 \<and>
        lower (predictionIntervals r ! 0) \<noteq> NaN \<and> upper (predictionIntervals r ! 0) \<noteq> NaN \<and>
        js_le (lower (predictionIntervals r ! 0)) (forecast r ! 0) \<and>
        js_le (forecast r ! 0) (upper (predictionIntervals r ! 0))) \<and>
   length (forecast (monteCarloSimulation (\<lambda>k. 1 / 2) [Fin 1, Fin 2]
      (no_options\<lparr> opt_method := Some ''moving-average'', opt_periods := Some 2 \<rparr>))) = 2"
  using forecast_lengths_and_order [of "ArrayOf [Fin 1, Fin 2, Fin 3, Fin 4, Fin 5, Fin 6]"
      "no_options\<lparr> opt_method := Some ''moving-average'', opt_periods := Some 2 \<rparr>"
      "\<lambda>k. 1 / 2" "[Fin 1, Fin 2]"]
  by (simp add: movingAverage_example periods_of_def int_or_def)

text \<open>
  The claim as stated fails for the Monte Carlo simulation: the point forecast is the mean
  of the simulated values, the bounds are two of their order statistics, and the mean of
  a skewed sample lies outside them. With four iterations and a confidence of 0.5 the lower
  bound is the second smallest value; one low path pulls the mean below it.
\<close>

lemma sqrt_9_16: "sqrt (9 / 16) = 3 / 4"
  by (rule real_sqrt_unique) (simp_all add: power2_eq_square)

lemma ln_half_neg: "ln (1 / 2 :: real) = - ln 2"
  by (simp add: ln_div)

lemma boxMuller_down:
  "boxMullerTransform skewed_draws 0 = (Fin (- sqrt (2 * ln 2)), 2)"
  by (simp add: boxMullerTransform_def skewed_draws_def Let_def ln_half_neg)

lemma boxMuller_flat:
  "even k \<Longrightarrow> 0 < k \<Longrightarrow> boxMullerTransform skewed_draws k = (Fin 0, k + 2)"
  by (simp add: boxMullerTransform_def skewed_draws_def Let_def ln_half_neg)

lemma skewed_simulations:
  "run_simulations skewed_draws (Fin (1 / 4)) (Fin (3 / 4)) (Suc 0) (Fin 1) (Suc (Suc (Suc (Suc 0)))) 0
   = [[Fin (5 / 4 - 3 / 4 * sqrt (2 * ln 2))], [Fin (5 / 4)], [Fin (5 / 4)], [Fin (5 / 4)]]"
  by (simp add: boxMuller_down boxMuller_flat)

lemma skewed_simulations_4:
  "run_simulations skewed_draws (Fin (1 / 4)) (Fin (3 / 4)) (Suc 0) (Fin 1) 4 0
   = [[Fin (5 / 4 - 3 / 4 * sqrt (2 * ln 2))], [Fin (5 / 4)], [Fin (5 / 4)], [Fin (5 / 4)]]"
  using skewed_simulations by (simp add: numeral_eq_Suc)

lemma sqrt_2ln2_pos: "0 < sqrt (2 * ln (2::real))"
  by simp

lemma skewed_result:
  "monteCarloSimulation skewed_draws [Fin 1, Fin 2, Fin 1] skewed_options =
     \<lparr> method_name = ''monte-carlo'', historicalData = [Fin 1, Fin 2, Fin 1],
       forecast = [Fin (5 / 4 - 3 / 16 * sqrt (2 * ln 2))],
       predictionIntervals = [\<lparr> lower = Fin (5 / 4), upper = Fin (5 / 4) \<rparr>],
       statistics = [(''iterations'', Fin 4), (''mean'', Fin (1 / 4)), (''stdDev'', Fin (3 / 4))] \<rparr>"
proof -
  show ?thesis
    unfolding monteCarloSimulation_def Let_def
    using sqrt_2ln2_pos
    by (simp add: skewed_options_def no_options_def int_or_def js_or_def js_sub_def sqrt_9_16
        skewed_simulations_4 period_summary_def js_sort_def js_nth_def Let_def)
qed


theorem monteCarlo_forecast_below_lower:
  "2 \<le> length [Fin 1, Fin 2, Fin 1] \<and>
   \<not> js_le (lower (predictionIntervals
                     (monteCarloSimulation skewed_draws [Fin 1, Fin 2, Fin 1] skewed_options) ! 0))
            (forecast (monteCarloSimulation skewed_draws [Fin 1, Fin 2, Fin 1] skewed_options) ! 0)"
  using sqrt_2ln2_pos by (simp add: skewed_result)

section \<open>Linear regression over finite numbers\<close>

lemma sum_x_closed: "sum_x n = real n * (real n + 1) / 2"
  unfolding sum_x_def by (induction n) (simp_all add: field_simps)

lemma sum_xx_closed: "sum_xx n = real n * (real n + 1) * (2 * real n + 1) / 6"
  unfolding sum_xx_def by (induction n) (simp_all add: field_simps)

lemma ols_denominator: "real n * sum_xx n - sum_x n * sum_x n = (real n)\<^sup>2 * ((real n)\<^sup>2 - 1) / 12"
  unfolding sum_x_closed sum_xx_closed by (simp add: field_simps power2_eq_square)

lemma ols_denominator_pos:
  assumes "2 \<le> n" shows "0 < real n * sum_xx n - sum_x n * sum_x n"
proof -
  have "1 < real n" using assms by simp
  then have "1 < (real n)\<^sup>2" by (simp add: power2_eq_square less_1_mult)
  then have "0 < (real n)\<^sup>2 * ((real n)\<^sup>2 - 1)"
    using assms by (intro mult_pos_pos) simp_all
  then show ?thesis unfolding ols_denominator by simp
qed

lemma ols_sse_nonneg: "0 \<le> ols_sse ys"
  unfolding ols_sse_def by (simp add: sum_nonneg)

lemma ols_tss_nonneg: "0 \<le> ols_tss ys"
  unfolding ols_tss_def by (simp add: sum_nonneg)

lemma linearRegression_finite:
  assumes n: "2 \<le> length ys"
  shows "linearRegression (map Fin ys) opts =
     \<lparr> method_name = ''linear'', historicalData = map Fin ys,
       forecast = map (\<lambda>i. Fin (ols_intercept ys + ols_slope ys * (real (length ys) + of_int i)))
                      (loop_range 1 (opt_periods opts)),
       predictionIntervals =
         intervals_around
           (map (\<lambda>i. Fin (ols_intercept ys + ols_slope ys * (real (length ys) + of_int i)))
                (loop_range 1 (opt_periods opts)))
           (linear_width (Fin (real (length ys))) (Fin (mean_y ys)) (Fin (ols_tss ys))
              (Math_sqrt (js_div (Fin (ols_sse ys)) (Fin (real (length ys) - 2))))),
       statistics = [(''slope'', Fin (ols_slope ys)), (''intercept'', Fin (ols_intercept ys)),
                     (''rSquared'', js_sub (Fin 1) (js_div (Fin (ols_sse ys)) (Fin (ols_tss ys)))),
                     (''rmse'', Fin (sqrt (ols_sse ys / real (length ys))))] \<rparr>"
proof -
  define m where "m = length ys"
  let ?x = "map (\<lambda>index. Fin (real (index + 1))) [0..<length (map Fin ys)]"
  have m: "2 \<le> m" "real m \<noteq> 0" using n by (auto simp: m_def)
  have x: "?x = map (\<lambda>i. Fin (real (i + 1))) [0..<m]" by (simp add: m_def)
  have y: "map Fin ys = map (\<lambda>i. Fin (ys ! i)) [0..<m]" unfolding m_def by (rule map_Fin_upt)
  have len: "Fin (real (length ?x)) = Fin (real m)" by (simp add: m_def)
  have sumX: "foldl (\<lambda>s v. js_add s v) (Fin 0) ?x = Fin (sum_x m)"
    unfolding x sum_x_def by (rule foldl_js_add_upt) simp
  have sumY: "foldl (\<lambda>s v. js_add s v) (Fin 0) (map Fin ys) = Fin (sum_y ys)"
    unfolding sum_y_def m_def[symmetric] by (subst y, rule foldl_js_add_upt) simp
  have pair: "(\<lambda>s (v, yv). js_add s (js_mul v yv)) = (\<lambda>s v. js_add s (js_mul (fst v) (snd v)))"
    by (simp add: fun_eq_iff split_beta)
  have sumXY: "foldl (\<lambda>s (v, yv). js_add s (js_mul v yv)) (Fin 0) (zip ?x (map Fin ys)) = Fin (sum_xy ys)"
    unfolding x sum_xy_def m_def[symmetric] pair
    by (subst y, subst zip_upt_maps, rule foldl_js_add_upt) simp
  have sumX2: "foldl (\<lambda>s v. js_add s (js_mul v v)) (Fin 0) ?x = Fin (sum_xx m)"
    unfolding x sum_xx_def by (rule foldl_js_add_upt) simp
  have den: "real m * sum_xx m - sum_x m * sum_x m \<noteq> 0"
    using ols_denominator_pos[OF m(1)] by simp
  have slope: "js_div (js_sub (js_mul (Fin (real m)) (Fin (sum_xy ys))) (js_mul (Fin (sum_x m)) (Fin (sum_y ys))))
                      (js_sub (js_mul (Fin (real m)) (Fin (sum_xx m))) (js_mul (Fin (sum_x m)) (Fin (sum_x m))))
               = Fin (ols_slope ys)"
    using den by (simp add: ols_slope_def m_def)
  have intercept: "js_div (js_sub (Fin (sum_y ys)) (js_mul (Fin (ols_slope ys)) (Fin (sum_x m)))) (Fin (real m))
               = Fin (ols_intercept ys)"
    using m(2) by (simp add: ols_intercept_def m_def)
  have fitted: "map (\<lambda>xi. js_add (Fin (ols_intercept ys)) (js_mul (Fin (ols_slope ys)) xi)) ?x
      = map (\<lambda>i. Fin (ols_intercept ys + ols_slope ys * real (i + 1))) [0..<m]"
    unfolding x by simp
  have sse: "foldl (\<lambda>s r. js_add s (js_mul r r)) (Fin 0)
               (map (\<lambda>(yi, fi). js_sub yi fi)
                  (zip (map Fin ys) (map (\<lambda>i. Fin (ols_intercept ys + ols_slope ys * real (i + 1))) [0..<m])))
             = Fin (ols_sse ys)"
    unfolding ols_sse_def m_def[symmetric]
    by (subst y, subst zip_upt_maps, subst map_map, rule foldl_js_add_upt)
       (simp add: power2_eq_square)
  have meanY: "js_div (Fin (sum_y ys)) (Fin (real m)) = Fin (mean_y ys)"
    using m(2) by (simp add: mean_y_def m_def)
  have tss: "foldl (\<lambda>s yi. js_add s (Math_pow2 (js_sub yi (Fin (mean_y ys))))) (Fin 0) (map Fin ys)
             = Fin (ols_tss ys)"
    unfolding ols_tss_def m_def[symmetric]
    by (subst y, rule foldl_js_add_upt) (simp add: power2_eq_square)
  have rmse: "Math_sqrt (js_div (Fin (ols_sse ys)) (Fin (real m))) = Fin (sqrt (ols_sse ys / real m))"
    using m(2) ols_sse_nonneg[of ys] by (simp add: not_less)
  have two: "js_sub (Fin (real m)) (Fin 2) = Fin (real m - 2)" by simp
  show ?thesis
    unfolding linearRegression_def Let_def len sumX sumY sumXY sumX2 slope intercept fitted sse
      meanY tss rmse two
    by (simp add: m_def)
qed

lemma linear_width_finite:
  assumes "2 < n" and "0 < tss" and "0 \<le> sse"
  shows "linear_width (Fin n) (Fin mu) (Fin tss) (Math_sqrt (js_div (Fin sse) (Fin (n - 2)))) j
         = Fin (1.96 * sqrt (sse / (n - 2)) * sqrt (1 + 1 / n + (n + (1 + real j) - mu)\<^sup>2 / tss))"
proof -
  have a: "\<not> sse / (n - 2) < 0" using assms by (simp add: not_less)
  have "0 \<le> 1 + 1 / n + (n + real j + 1 - mu) * (n + real j + 1 - mu) / tss"
    using assms by (intro add_nonneg_nonneg divide_nonneg_pos) simp_all
  then have b: "\<not> 1 + 1 / n + (n + real j + 1 - mu) * (n + real j + 1 - mu) / tss < 0"
    by (simp add: not_less)
  show ?thesis
    using assms a b
    by (simp add: linear_width_def Let_def tValue_def power2_eq_square algebra_simps)
qed

lemma nth_upto_1: "j < nat k \<Longrightarrow> [1..k] ! j = 1 + int j"
  by (simp add: nth_upto)

lemma length_upto_1 [simp]: "length [1..k] = nat k"
  by simp


text \<open>
  Claim C3. On a series of at least two finite numbers, linear regression returns the
  least-squares slope and intercept over the time indices \<open>1 .. n\<close>, forecasts the
  period \<open>n + i\<close> as \<open>intercept + slope * (n + i)\<close> for \<open>i = 1 .. periods\<close>, and, where
  the formula is defined (three points or more and a total sum of squares that is not
  zero), puts around it the interval of half-width
  \<open>1.96 * sqrt (SSE / (n - 2)) * sqrt (1 + 1/n + (period - meanY)^2 / TSS)\<close>, with the
  period set against the mean of the values. On \<open>[1, 3, 5, 7, 9]\<close> the statistics are
  slope 2, intercept -1, R squared 1 and RMSE 0.
\<close>

theorem linearRegression_ols:
  assumes n: "2 \<le> length ys" and k: "opt_periods opts = Some k"
  shows "map_of (statistics (linearRegression (map Fin ys) opts)) ''slope'' = Some (Fin (ols_slope ys)) \<and>
         map_of (statistics (linearRegression (map Fin ys) opts)) ''intercept''
           = Some (Fin (ols_intercept ys)) \<and>
         forecast (linearRegression (map Fin ys) opts) = map (\<lambda>i. Fin (ols_forecast ys i)) [1..k] \<and>
         (3 \<le> length ys \<and> ols_tss ys \<noteq> 0 \<longrightarrow>
            predictionIntervals (linearRegression (map Fin ys) opts)
              = map (\<lambda>i. \<lparr> lower = Fin (ols_forecast ys i - ols_width ys i),
                            upper = Fin (ols_forecast ys i + ols_width ys i) \<rparr>) [1..k]) \<and>
         statistics (linearRegression (map Fin [1, 3, 5, 7, 9]) opts)
           = [(''slope'', Fin 2), (''intercept'', Fin (- 1)), (''rSquared'', Fin 1), (''rmse'', Fin 0)]"
proof -
  note fin = linearRegression_finite[OF n, of opts]
  have fc: "forecast (linearRegression (map Fin ys) opts) = map (\<lambda>i. Fin (ols_forecast ys i)) [1..k]"
    unfolding fin by (simp add: k loop_range_def ols_forecast_def)
  have iv: "predictionIntervals (linearRegression (map Fin ys) opts)
              = map (\<lambda>i. \<lparr> lower = Fin (ols_forecast ys i - ols_width ys i),
                            upper = Fin (ols_forecast ys i + ols_width ys i) \<rparr>) [1..k]"
    if big: "3 \<le> length ys" and tss: "ols_tss ys \<noteq> 0"
  proof -
    have t: "0 < ols_tss ys" using tss ols_tss_nonneg[of ys] by simp
    have l: "2 < real (length ys)" using big by simp
    have w: "linear_width (Fin (real (length ys))) (Fin (mean_y ys)) (Fin (ols_tss ys))
               (Math_sqrt (js_div (Fin (ols_sse ys)) (Fin (real (length ys) - 2))))
             = (\<lambda>j. Fin (ols_width ys (1 + int j)))"
      by (rule ext)
         (simp only: linear_width_finite[OF l t ols_sse_nonneg[of ys]] ols_width_def of_int_add
            of_int_1 of_int_of_nat_eq)
    show ?thesis
      unfolding fin w
      by (rule nth_equalityI)
         (simp_all add: k loop_range_def nth_intervals_around nth_upto_1 ols_forecast_def)
  qed
  have ex: "statistics (linearRegression (map Fin [1, 3, 5, 7, 9]) opts)
           = [(''slope'', Fin 2), (''intercept'', Fin (- 1)), (''rSquared'', Fin 1), (''rmse'', Fin 0)]"
    by (simp add: linearRegression_def Let_def)
  show ?thesis using fc iv ex unfolding fin by simp
qed

theorem linearRegression_ols_witness:
  "2 \<le> length [1, 3, 5, 7, 9 :: real] \<and>
   opt_periods (no_options\<lparr> opt_periods := Some 2 \<rparr>) = Some 2 \<and>
   3 \<le> length [1, 3, 5, 7, 9 :: real] \<and> ols_tss [1, 3, 5, 7, 9] \<noteq> 0 \<and>
   ols_slope [1, 3, 5, 7, 9] = 2 \<and> ols_intercept [1, 3, 5, 7, 9] = - 1 \<and>
   forecast (linearRegression (map Fin [1, 3, 5, 7, 9]) (no_options\<lparr> opt_periods := Some 2 \<rparr>))
     = [Fin 11, Fin 13] \<and>
   predictionIntervals (linearRegression (map Fin [1, 3, 5, 7, 9]) (no_options\<lparr> opt_periods := Some 2 \<rparr>))
     = [\<lparr> lower = Fin 11, upper = Fin 11 \<rparr>, \<lparr> lower = Fin 13, upper = Fin 13 \<rparr>]"
proof -
  have s: "sum_y [1, 3, 5, 7, 9] = 25" "sum_xy [1, 3, 5, 7, 9] = 95"
    by (simp_all add: sum_y_def sum_xy_def)
  have x: "sum_x (length [1, 3, 5, 7, 9 :: real]) = 15" "sum_xx (length [1, 3, 5, 7, 9 :: real]) = 55"
    by (simp_all add: sum_x_closed sum_xx_closed)
  have sl: "ols_slope [1, 3, 5, 7, 9] = 2" unfolding ols_slope_def s x by simp
  have ic: "ols_intercept [1, 3, 5, 7, 9] = - 1" unfolding ols_intercept_def s sl x by simp
  have mu: "mean_y [1, 3, 5, 7, 9] = 5" unfolding mean_y_def s by simp
  have tss: "ols_tss [1, 3, 5, 7, 9] = 40" unfolding ols_tss_def mu by simp
  have sse: "ols_sse [1, 3, 5, 7, 9] = 0" unfolding ols_sse_def sl ic by simp
  show ?thesis
    using linearRegression_ols [of "[1, 3, 5, 7, 9]" "no_options\<lparr> opt_periods := Some 2 \<rparr>" 2]
    by (simp add: no_options_def sl ic tss sse mu ols_forecast_def ols_width_def upto.simps)
qed


section \<open>The degenerate fits\<close>













section \<open>Monte Carlo simulation on a series too short for a percent change\<close>

lemma percentChanges_short: "length hist < 2 \<Longrightarrow> percentChanges hist = []"
  by (cases hist rule: percentChanges.cases) simp_all

lemma simulate_NaN_mean:
  "simulate rnd NaN sd j prev k = (replicate j NaN, k + 2 * j)"
  by (induction j arbitrary: prev k) (simp_all add: boxMullerTransform_def Let_def)

lemma run_simulations_NaN_mean:
  "run_simulations rnd NaN sd periods lastValue i k = replicate i (replicate periods NaN)"
  by (induction i arbitrary: k) (simp_all add: simulate_NaN_mean)

lemma js_insert_NaN: "js_insert NaN ws = NaN # ws"
  by (cases ws) (simp_all add: js_sub_def)

lemma js_sort_replicate_NaN: "js_sort (replicate n NaN) = replicate n NaN"
  by (induction n) (simp_all add: js_sort_def js_insert_NaN)

lemma js_index_floor_replicate:
  assumes "0 \<le> r" and "r < real n"
  shows "js_index (replicate n v) (Math_floor (Fin r)) = v"
proof -
  have a: "0 \<le> \<lfloor>r\<rfloor>" using assms(1) by simp
  have b: "\<lfloor>r\<rfloor> < int n" using assms(2) by (simp add: floor_less_iff)
  have c: "nat \<lfloor>r\<rfloor> < n" using a b by linarith
  show ?thesis using a b c by (simp add: js_nth_def)
qed

lemma percentile_indices_in_range:
  fixes c :: real and N :: int
  assumes "0 < N" "0 < c" "c < 1"
  shows "0 \<le> real_of_int N * (1 - c) / 2" "real_of_int N * (1 - c) / 2 < real (nat N)"
    "0 \<le> real_of_int N * (1 - (1 - c) / 2)" "real_of_int N * (1 - (1 - c) / 2) < real (nat N)"
proof -
  have "real_of_int N * ((1 - c) / 2) < real_of_int N * 1"
    using assms by (intro mult_strict_left_mono) simp_all
  then show "real_of_int N * (1 - c) / 2 < real (nat N)" using assms by simp
  have "real_of_int N * (1 - (1 - c) / 2) < real_of_int N * 1"
    using assms by (intro mult_strict_left_mono) simp_all
  then show "real_of_int N * (1 - (1 - c) / 2) < real (nat N)" using assms by simp
  show "0 \<le> real_of_int N * (1 - c) / 2" "0 \<le> real_of_int N * (1 - (1 - c) / 2)"
    using assms by simp_all
qed

text \<open>
  Claim C10. \<open>monteCarloSimulation\<close> validates nothing. On an array with fewer than two
  elements there is no percent change, the mean of the empty list is \<open>0/0 = NaN\<close>, and
  the call still returns a result tagged \<open>monte-carlo\<close> whose forecast and prediction
  intervals have one entry per period, every one of them \<open>NaN\<close>. The options are the
  ones the function reads after its defaults: a positive number of iterations and a
  confidence level strictly between 0 and 1 (so that both percentile indices name an
  element); the number of entries is \<open>periods\<close> (none for a negative one).
\<close>

theorem monteCarlo_short_series:
  assumes short: "length hist < 2"
    and iters: "0 < int_or (opt_iterations opts) 1000"
    and conf: "js_or (opt_confidence opts) (Fin 0.95) = Fin c" "0 < c" "c < 1"
  shows "method_name (monteCarloSimulation rnd hist opts) = ''monte-carlo'' \<and>
         forecast (monteCarloSimulation rnd hist opts) =
           replicate (nat (int_or (opt_periods opts) 5)) NaN \<and>
         predictionIntervals (monteCarloSimulation rnd hist opts) =
           replicate (nat (int_or (opt_periods opts) 5)) \<lparr> lower = NaN, upper = NaN \<rparr>"
proof -
  define N where "N = int_or (opt_iterations opts) 1000"
  define P where "P = nat (int_or (opt_periods opts) 5)"
  have Npos: "0 < N" using iters by (simp add: N_def)
  note idx = percentile_indices_in_range[OF Npos conf(2,3)]
  have col: "map (\<lambda>sim. js_nth sim (int i)) (replicate (nat N) (replicate P NaN))
             = replicate (nat N) NaN"
    if "i < P" for i using that by (simp add: js_nth_def)
  have sum: "foldl js_add (Fin 0) (replicate (nat N) NaN) = NaN"
    using Npos by (simp add: foldl_js_add_replicate_NaN)
  have per: "period_summary (replicate (nat N) (replicate P NaN)) N (Fin c) i
             = (NaN, \<lparr> lower = NaN, upper = NaN \<rparr>)" if "i < P" for i
    unfolding period_summary_def Let_def col[OF that] js_sort_replicate_NaN sum
    using js_index_floor_replicate[OF idx(1,2), of NaN]
      js_index_floor_replicate[OF idx(3,4), of NaN]
    by (simp add: js_sub_def)
  show ?thesis
    unfolding monteCarloSimulation_def Let_def conf(1) percentChanges_short[OF short]
      N_def[symmetric] P_def[symmetric]
    by (simp add: run_simulations_NaN_mean map_upt_const[OF per] del: map_map)
qed

theorem monteCarlo_short_series_witness:
  "length [Fin 7] < 2 \<and>
   0 < int_or (opt_iterations (no_options\<lparr> opt_periods := Some 2, opt_iterations := Some 3 \<rparr>)) 1000 \<and>
   js_or (opt_confidence (no_options\<lparr> opt_periods := Some 2, opt_iterations := Some 3 \<rparr>)) (Fin 0.95)
     = Fin 0.95 \<and>
   method_name (monteCarloSimulation (\<lambda>k. 1 / 2) [Fin 7]
      (no_options\<lparr> opt_periods := Some 2, opt_iterations := Some 3 \<rparr>)) = ''monte-carlo'' \<and>
   forecast (monteCarloSimulation (\<lambda>k. 1 / 2) [Fin 7]
      (no_options\<lparr> opt_periods := Some 2, opt_iterations := Some 3 \<rparr>)) = [NaN, NaN] \<and>
   predictionIntervals (monteCarloSimulation (\<lambda>k. 1 / 2) [Fin 7]
      (no_options\<lparr> opt_periods := Some 2, opt_iterations := Some 3 \<rparr>))
     = [\<lparr> lower = NaN, upper = NaN \<rparr>, \<lparr> lower = NaN, upper = NaN \<rparr>]"
  using monteCarlo_short_series [of "[Fin 7]"
      "no_options\<lparr> opt_periods := Some 2, opt_iterations := Some 3 \<rparr>" "0.95" "\<lambda>k. 1 / 2"]
  by (simp add: no_options_def int_or_def js_or_def numeral_2_eq_2)

section \<open>Exponential smoothing over finite numbers\<close>

lemma intervals_around_flat:
  "intervals_around (replicate n (Fin v)) (\<lambda>i. Fin (w i))
   = map (\<lambda>i. \<lparr> lower = Fin (v - w i), upper = Fin (v + w i) \<rparr>) [0..<n]"
  by (rule nth_equalityI) (simp_all add: nth_intervals_around)

lemma js_nth_nat: "i < length xs \<Longrightarrow> js_nth xs (int i) = xs ! i"
  by (simp add: js_nth_def)

lemma smooth_loop_smoothed:
  "j < length ys \<Longrightarrow>
   smooth_loop (Fin a) (Fin (smoothed_at a ys j)) (map Fin (drop (Suc j) ys))
     = map (\<lambda>i. Fin (smoothed_at a ys i)) [Suc j..<length ys]"
proof (induction "length ys - Suc j" arbitrary: j)
  case 0
  then show ?case by simp
next
  case (Suc m)
  then have lt: "Suc j < length ys" and m: "m = length ys - Suc (Suc j)" by simp_all
  have d: "drop (Suc j) ys = ys ! Suc j # drop (Suc (Suc j)) ys"
    using lt by (simp add: Cons_nth_drop_Suc)
  have u: "[Suc j..<length ys] = Suc j # [Suc (Suc j)..<length ys]"
    using lt by (simp add: upt_conv_Cons)
  show ?case
    unfolding d u using Suc.hyps(1)[OF m lt]
    by (simp add: Let_def)
qed

lemma smoothed_list:
  assumes "0 < length ys"
  shows "js_nth (map Fin ys) 0 # smooth_loop (Fin a) (js_nth (map Fin ys) 0) (drop 1 (map Fin ys))
         = map (\<lambda>i. Fin (smoothed_at a ys i)) [0..<length ys]"
proof -
  have z: "js_nth (map Fin ys) 0 = Fin (smoothed_at a ys 0)" using assms by (simp add: js_nth_def)
  have u: "[0..<length ys] = 0 # [Suc 0..<length ys]" using assms by (simp add: upt_conv_Cons)
  show ?thesis
    unfolding z u using smooth_loop_smoothed[OF assms, of a]
    by (simp add: drop_map)
qed

lemma exponential_width_finite:
  "0 \<le> e \<Longrightarrow> exponential_width (Fin e) i = Fin (1.96 * e * sqrt (1 + (real i + 1)))"
  by (simp add: exponential_width_def tValue_def)

lemma ses_sse_nonneg: "0 \<le> (\<Sum>i<n. (ses_error a ys i)\<^sup>2)"
  by (simp add: sum_nonneg)

lemma exponentialSmoothing_finite:
  assumes n: "2 \<le> length ys" and a: "js_or (opt_alpha opts) (Fin 0.3) = Fin a"
    and k: "opt_periods opts = Some k" "0 \<le> k" "k \<le> 4294967295"
  shows "exponentialSmoothing (map Fin ys) opts =
     Inr \<lparr> method_name = ''exponential'', historicalData = map Fin ys,
           forecast = replicate (nat k) (Fin (smoothed_at a ys (length ys - 1))),
           predictionIntervals =
             intervals_around (replicate (nat k) (Fin (smoothed_at a ys (length ys - 1))))
               (\<lambda>i. Fin (ses_width a ys i)),
           statistics = [(''alpha'', Fin a), (''rmse'', Fin (ses_rmse a ys))] \<rparr>"
proof -
  define m where "m = length ys"
  have m: "2 \<le> m" "0 < length ys" "real m - 1 \<noteq> 0" "0 < real m - 1" using n by (auto simp: m_def)
  let ?S = "map (\<lambda>i. Fin (smoothed_at a ys i)) [0..<length ys]"
  have last: "js_nth ?S (int (length ?S) - 1) = Fin (smoothed_at a ys (length ys - 1))"
    using m(2) by (simp add: js_nth_def nat_diff_distrib')
  have fill: "Array_fill (Some k) v = Inr (replicate (nat k) v)" for v
    using k by (simp add: Array_fill_def)
  have y: "map Fin ys = map (\<lambda>i. Fin (ys ! i)) [0..<m]" unfolding m_def by (rule map_Fin_upt)
  have z: "zip (map (\<lambda>i. Fin (ys ! i)) [0..<m]) [0..<m] = map (\<lambda>i. (Fin (ys ! i), i)) [0..<m]"
    by (rule nth_equalityI) simp_all
  have errs: "map (\<lambda>(actual, i). if i = 0 then Fin 0 else js_sub actual (js_nth ?S (int i - 1)))
                  (zip (map Fin ys) [0..<length (map Fin ys)])
              = map (\<lambda>i. Fin (ses_error a ys i)) [0..<m]"
    unfolding length_map m_def[symmetric]
    by (subst y, subst z) (auto simp: ses_error_def js_nth_def m_def nat_diff_distrib')
  have sse: "foldl (\<lambda>s e. js_add s (js_mul e e)) (Fin 0) (map (\<lambda>i. Fin (ses_error a ys i)) [0..<m])
             = Fin (\<Sum>i<m. (ses_error a ys i)\<^sup>2)"
    by (rule foldl_js_add_upt) (simp add: power2_eq_square)
  have mse: "Math_sqrt (js_div (Fin (\<Sum>i<m. (ses_error a ys i)\<^sup>2))
                              (Fin (real (length (map Fin ys)) - 1)))
             = Fin (ses_rmse a ys)"
    using m(3,4) ses_sse_nonneg[where n=m and a=a and ys=ys]
    by (simp add: ses_rmse_def m_def[symmetric] not_less)
  have rm: "0 \<le> ses_rmse a ys"
    unfolding ses_rmse_def m_def[symmetric]
    using m(4) ses_sse_nonneg[where n=m and a=a and ys=ys] by simp
  have w: "exponential_width (Fin (ses_rmse a ys)) = (\<lambda>i. Fin (ses_width a ys i))"
    by (rule ext) (simp only: exponential_width_finite[OF rm] ses_width_def)
  show ?thesis
    unfolding exponentialSmoothing_def Let_def a smoothed_list[OF m(2)] last k(1) fill errs sse mse w
    by simp
qed

text \<open>
  Claim C5. On a series of at least two finite numbers, with a finite smoothing factor
  (the one the function reads after its default) and a number of periods the array
  constructor accepts, exponential smoothing returns the flat forecast at the last
  smoothed value, where \<open>smoothed[0] = series[0]\<close> and
  \<open>smoothed[i] = alpha * series[i] + (1 - alpha) * smoothed[i - 1]\<close>; the RMSE of the
  one-step-ahead errors over \<open>n - 1\<close>; and the intervals of half-width
  \<open>1.96 * RMSE * sqrt (1 + (i + 1))\<close>. With \<open>alpha = 1\<close> on \<open>[10, 20, 15]\<close> every forecast
  is 15.
\<close>

theorem exponentialSmoothing_formulas:
  assumes "2 \<le> length ys" and "js_or (opt_alpha opts) (Fin 0.3) = Fin a"
    and "opt_periods opts = Some k" and "0 \<le> k" and "k \<le> 4294967295"
  shows "(\<exists>r. exponentialSmoothing (map Fin ys) opts = Inr r \<and>
              forecast r = replicate (nat k) (Fin (smoothed_at a ys (length ys - 1))) \<and>
              map_of (statistics r) ''rmse'' = Some (Fin (ses_rmse a ys)) \<and>
              predictionIntervals r =
                map (\<lambda>i. \<lparr> lower = Fin (smoothed_at a ys (length ys - 1) - ses_width a ys i),
                              upper = Fin (smoothed_at a ys (length ys - 1) + ses_width a ys i) \<rparr>)
                    [0..<nat k]) \<and>
         (a = 1 \<longrightarrow>
            (\<exists>r. exponentialSmoothing (map Fin [10, 20, 15]) opts = Inr r \<and>
                  forecast r = replicate (nat k) (Fin 15)))"
proof -
  have ex: "smoothed_at 1 [10, 20, 15] (length [10, 20, 15 :: real] - 1) = 15"
    by (simp add: numeral_2_eq_2)
  have le: "2 \<le> length [10, 20, 15 :: real]" by simp
  show ?thesis
    using exponentialSmoothing_finite[OF assms]
      exponentialSmoothing_finite[OF le assms(2-5)] ex
    by (auto simp: intervals_around_flat)
qed

theorem exponentialSmoothing_formulas_witness:
  "2 \<le> length [10, 20, 15 :: real] \<and>
   js_or (opt_alpha (no_options\<lparr> opt_alpha := Fin 1, opt_periods := Some 2 \<rparr>)) (Fin 0.3) = Fin 1 \<and>
   opt_periods (no_options\<lparr> opt_alpha := Fin 1, opt_periods := Some 2 \<rparr>) = Some 2 \<and>
   (\<exists>r. exponentialSmoothing (map Fin [10, 20, 15])
           (no_options\<lparr> opt_alpha := Fin 1, opt_periods := Some 2 \<rparr>) = Inr r \<and>
        forecast r = [Fin 15, Fin 15])"
  using exponentialSmoothing_formulas [of "[10, 20, 15]"
      "no_options\<lparr> opt_alpha := Fin 1, opt_periods := Some 2 \<rparr>" 1 2]
  by (auto simp: no_options_def js_or_def numeral_2_eq_2)

section \<open>Moving average over finite numbers\<close>

lemma upto_as_upt: "1 \<le> a \<Longrightarrow> [int a - 1 .. int b - 1] = map int [a - 1..<b]"
proof (induction b)
  case 0
  then show ?case by simp
next
  case (Suc b)
  show ?case
  proof (cases "a - 1 \<le> b")
    case True
    then have "[int a - 1 .. int (Suc b) - 1] = [int a - 1 .. int b - 1] @ [int b]"
      using Suc.prems upto_rec2[of "int a - 1" "int b"] by simp
    then show ?thesis using Suc True by simp
  next
    case False
    then show ?thesis using Suc.prems by simp
  qed
qed

lemma js_slice_window:
  assumes "1 \<le> w" and "w - 1 \<le> j" and "j < length ys"
  shows "js_slice (map Fin ys) (int j - int w + 1) (int j + 1) = map Fin (take w (drop (j + 1 - w) ys))"
proof -
  have a: "slice_bound (length (map Fin ys)) (int j - int w + 1) = j + 1 - w"
    using assms by (simp add: slice_bound_def nat_diff_distrib' nat_add_distrib) linarith
  have b: "slice_bound (length (map Fin ys)) (int j + 1) = j + 1"
    using assms by (simp add: slice_bound_def nat_add_distrib)
  have c: "j + 1 - (j + 1 - w) = w" using assms by simp
  show ?thesis unfolding js_slice_def Let_def a b c by (simp add: take_map drop_map)
qed

lemma sum_list_window:
  assumes "1 \<le> w" and "w - 1 \<le> j" and "j < length ys"
  shows "sum_list (take w (drop (j + 1 - w) ys)) = (\<Sum>t<w. ys ! (j + 1 - w + t))"
proof -
  have l: "length (take w (drop (j + 1 - w) ys)) = w" using assms by simp
  show ?thesis
    unfolding sum_list_sum_nth l using assms
    by (intro sum.cong) (auto simp: atLeast0LessThan)
qed

lemma window_average:
  assumes "1 \<le> w" and "w - 1 \<le> j" and "j < length ys"
  shows "js_div (foldl (\<lambda>s v. js_add s v) (Fin 0) (js_slice (map Fin ys) (int j - int w + 1) (int j + 1)))
                (Fin (real w))
         = Fin (window_mean w ys j)"
  unfolding js_slice_window[OF assms] foldl_js_add_Fin sum_list_window[OF assms] window_mean_def
  using assms(1) by simp

lemma foldl_squares_fin:
  "foldl (\<lambda>s e. js_add s (js_mul e e)) (Fin 0) (map (\<lambda>j. Fin (g j)) [a..<b])
   = Fin (\<Sum>j = a..<b. (g j)\<^sup>2)"
proof -
  have "foldl (\<lambda>s e. js_add s (js_mul e e)) (Fin 0) (map (\<lambda>j. Fin (g j)) [a..<b])
        = Fin (0 + sum_list (map (\<lambda>e. e * e) (map g [a..<b])))"
    unfolding map_map[symmetric, of Fin g]
    by (rule foldl_js_add_fin[where f="\<lambda>e. js_mul e e" and g="\<lambda>v. case v of Fin r \<Rightarrow> r * r | _ \<Rightarrow> 0", THEN trans])
       (auto simp: o_def)
  then show ?thesis
    by (simp add: interv_sum_list_conv_sum_set_nat power2_eq_square o_def)
qed

lemma average_width_finite:
  "0 \<le> e \<Longrightarrow> 1 \<le> w \<Longrightarrow>
   average_width (int w) (Fin e) i = Fin (1.96 * e * sqrt (1 + (real i + 1) / real w))"
proof -
  assume e: "0 \<le> e" and w: "1 \<le> w"
  have "0 \<le> 1 + (real i + 1) / real w" by simp
  then have "\<not> 1 + (real i + 1) / real w < 0" by (simp add: not_less)
  then show ?thesis using e w by (simp add: average_width_def tValue_def)
qed

lemma movingAverage_finite:
  assumes w: "int_or (opt_windowSize opts) 3 = int w" "1 \<le> w" "w \<le> length ys"
    and k: "opt_periods opts = Some k" "0 \<le> k" "k \<le> 4294967295"
  shows "movingAverage (map Fin ys) opts =
     Inr \<lparr> method_name = ''moving-average'', historicalData = map Fin ys,
           forecast = replicate (nat k) (Fin (window_mean w ys (length ys - 1))),
           predictionIntervals =
             intervals_around (replicate (nat k) (Fin (window_mean w ys (length ys - 1))))
               (\<lambda>i. Fin (ma_width w ys i)),
           statistics = [(''windowSize'', Fin (real w)), (''rmse'', Fin (ma_rmse w ys))] \<rparr>"
proof -
  define n where "n = length ys"
  let ?F = "\<lambda>i. js_div (foldl (\<lambda>s v. js_add s v) (Fin 0)
                      (js_slice (map Fin ys) (i - int w + 1) (i + 1))) (Fin (real w))"
  let ?MA = "map (\<lambda>j. Fin (window_mean w ys j)) [w - 1..<n]"
  have nw: "\<not> int (length (map Fin ys)) < int w" using w by simp
  have rng: "[int w - 1 .. int (length (map Fin ys)) - 1] = map int [w - 1..<n]"
    using upto_as_upt[OF w(2), of n] by (simp add: n_def)
  have ma: "map ?F (map int [w - 1..<n]) = ?MA"
    unfolding map_map
  proof (intro map_cong refl)
    fix j assume "j \<in> set [w - 1..<n]"
    then have j: "w - 1 \<le> j" "j < length ys" by (simp_all add: n_def)
    show "(?F \<circ> int) j = Fin (window_mean w ys j)"
      unfolding o_def by (rule window_average[OF w(2) j])
  qed
  have lenMA: "length ?MA = n - (w - 1)" by simp
  have pos: "0 < n - (w - 1)" using w by (simp add: n_def)
  have last: "js_nth ?MA (int (length ?MA) - 1) = Fin (window_mean w ys (length ys - 1))"
  proof -
    have i: "int (length ?MA) - 1 = int (n - w)" using w by (simp add: n_def of_nat_diff)
    have b: "n - w < n - (w - 1)" using w by (simp add: n_def)
    have c: "w - 1 + (n - w) = length ys - 1" using w by (simp add: n_def)
    have "js_nth ?MA (int (n - w)) = ?MA ! (n - w)" by (rule js_nth_nat) (use b in simp)
    also have "\<dots> = Fin (window_mean w ys (w - 1 + (n - w)))" by (rule nth_map_upt[OF b])
    finally show ?thesis unfolding i c .
  qed
  have fill: "Array_fill (Some k) v = Inr (replicate (nat k) v)" for v
    using k by (simp add: Array_fill_def)
  have errs: "map (\<lambda>i. js_sub (js_nth (map Fin ys) i) (js_nth ?MA (i - int w + 1))) (map int [w - 1..<n])
              = map (\<lambda>j. Fin (ys ! j - window_mean w ys j)) [w - 1..<n]"
    unfolding map_map
  proof (intro map_cong refl)
    fix j assume "j \<in> set [w - 1..<n]"
    then have j: "w - 1 \<le> j" "j < n" by simp_all
    have i: "int j - int w + 1 = int (j - (w - 1))" using j w(2) by (simp add: of_nat_diff)
    have b: "j - (w - 1) < n - (w - 1)" using j w by simp
    have c: "w - 1 + (j - (w - 1)) = j" using j by simp
    have "js_nth ?MA (int (j - (w - 1))) = ?MA ! (j - (w - 1))" by (rule js_nth_nat) (use b in simp)
    also have "\<dots> = Fin (window_mean w ys (w - 1 + (j - (w - 1))))" by (rule nth_map_upt[OF b])
    finally have m: "js_nth ?MA (int j - int w + 1) = Fin (window_mean w ys j)" unfolding i c .
    have "js_nth (map Fin ys) (int j) = map Fin ys ! j" by (rule js_nth_nat) (use j in \<open>simp add: n_def\<close>)
    then have y: "js_nth (map Fin ys) (int j) = Fin (ys ! j)" using j by (simp add: n_def)
    show "((\<lambda>i. js_sub (js_nth (map Fin ys) i) (js_nth ?MA (i - int w + 1))) \<circ> int) j
       = Fin (ys ! j - window_mean w ys j)"
      unfolding o_def m y by simp
  qed
  have lenE: "length (map (\<lambda>j. Fin (ys ! j - window_mean w ys j)) [w - 1..<n]) = n - (w - 1)"
    by simp
  have ssenn: "0 \<le> (\<Sum>j = w - 1..<n. (ys ! j - window_mean w ys j)\<^sup>2)" by (simp add: sum_nonneg)
  have rmse: "Math_sqrt (js_div (Fin (\<Sum>j = w - 1..<n. (ys ! j - window_mean w ys j)\<^sup>2))
                               (Fin (real (n - (w - 1)))))
              = Fin (ma_rmse w ys)"
    using pos ssenn by (simp add: ma_rmse_def n_def not_less)
  have rm: "0 \<le> ma_rmse w ys"
    unfolding ma_rmse_def n_def[symmetric] using pos ssenn by simp
  have wd: "average_width (int w) (Fin (ma_rmse w ys)) = (\<lambda>i. Fin (ma_width w ys i))"
    by (rule ext) (simp only: average_width_finite[OF rm w(2)] ma_width_def)
  show ?thesis
    unfolding movingAverage_def Let_def w(1) of_int_of_nat_eq if_not_P[OF nw] rng ma last k(1) fill errs
      foldl_squares_fin lenE rmse wd
    by simp
qed

text \<open>
  Claim C6. On a series of finite numbers, with a window \<open>1 <= w <= n\<close> and a number of
  periods the array constructor accepts, the moving average returns the flat forecast at
  the unweighted mean of the last \<open>w\<close> values; the RMSE of the errors
  \<open>actual[i] - movingAverage\<close>, each average taken over the window that ends at \<open>i\<close>;
  and the intervals of half-width \<open>1.96 * RMSE * sqrt (1 + (i + 1) / w)\<close>. With
  \<open>w = 3\<close> on \<open>[1, 2, 3, 4, 5, 6]\<close> every forecast is \<open>(4 + 5 + 6) / 3 = 5\<close>.
\<close>

theorem movingAverage_formulas:
  assumes "int_or (opt_windowSize opts) 3 = int w" and "1 \<le> w" and "w \<le> length ys"
    and "opt_periods opts = Some k" and "0 \<le> k" and "k \<le> 4294967295"
  shows "(\<exists>r. movingAverage (map Fin ys) opts = Inr r \<and>
              forecast r = replicate (nat k) (Fin (window_mean w ys (length ys - 1))) \<and>
              map_of (statistics r) ''rmse'' = Some (Fin (ma_rmse w ys)) \<and>
              predictionIntervals r =
                map (\<lambda>i. \<lparr> lower = Fin (window_mean w ys (length ys - 1) - ma_width w ys i),
                              upper = Fin (window_mean w ys (length ys - 1) + ma_width w ys i) \<rparr>)
                    [0..<nat k]) \<and>
         (w = 3 \<longrightarrow>
            (\<exists>r. movingAverage (map Fin [1, 2, 3, 4, 5, 6]) opts = Inr r \<and>
                  forecast r = replicate (nat k) (Fin ((4 + 5 + 6) / 3)) \<and>
                  forecast r = replicate (nat k) (Fin 5)))"
proof -
  have ex: "window_mean 3 [1, 2, 3, 4, 5, 6] (length [1, 2, 3, 4, 5, 6 :: real] - 1) = 5"
    by (simp add: window_mean_def eval_nat_numeral)
  have le: "w = 3 \<Longrightarrow> w \<le> length [1, 2, 3, 4, 5, 6 :: real]" by simp
  show ?thesis
    using movingAverage_finite[OF assms]
      movingAverage_finite[OF assms(1,2) le assms(4-6)] ex
    by (auto simp: intervals_around_flat)
qed

theorem movingAverage_formulas_witness:
  "int_or (opt_windowSize (no_options\<lparr> opt_windowSize := Some 3, opt_periods := Some 2 \<rparr>)) 3 = int 3 \<and>
   (1::nat) \<le> 3 \<and> 3 \<le> length [1, 2, 3, 4, 5, 6 :: real] \<and>
   opt_periods (no_options\<lparr> opt_windowSize := Some 3, opt_periods := Some 2 \<rparr>) = Some 2 \<and>
   (\<exists>r. movingAverage (map Fin [1, 2, 3, 4, 5, 6])
           (no_options\<lparr> opt_windowSize := Some 3, opt_periods := Some 2 \<rparr>) = Inr r \<and>
        forecast r = [Fin 5, Fin 5])"
  using movingAverage_formulas [of "no_options\<lparr> opt_windowSize := Some 3, opt_periods := Some 2 \<rparr>"
      3 "[1, 2, 3, 4, 5, 6]" 2]
  by (auto simp: no_options_def int_or_def numeral_2_eq_2)

section \<open>ARIMA over finite numbers\<close>

lemma diff_finite: "diff (map Fin xs) = map Fin (diff_r xs)"
  by (induction xs rule: diff_r.induct) simp_all

lemma diff_pow_finite: "(diff ^^ d) (map Fin xs) = map Fin ((diff_r ^^ d) xs)"
  by (induction d) (simp_all add: diff_finite)

lemma undiff_finite: "undiff (map Fin xs) (Fin s) = map Fin (cumsum_from s xs)"
  by (induction xs arbitrary: s) (simp_all add: Let_def)

lemma upto_from_0: "[0 .. int d - 1] = map int [0..<d]"
proof (induction d)
  case 0
  then show ?case by simp
next
  case (Suc d)
  have "[0 .. int (Suc d) - 1] = [0 .. int d - 1] @ [int d]"
    using upto_rec2[of 0 "int d"] by simp
  then show ?case using Suc by simp
qed

lemma ar_step_finite:
  assumes "j < p"
  shows "(let index = int (length (map Fin buf)) - int j - 1
          in if 0 \<le> index
             then js_add (Fin a) (js_mul (js_nth (replicate p (Fin c)) (int j))
                                         (js_nth (map Fin buf) index))
             else Fin a)
         = Fin (a + (if j < length buf then c * buf ! (length buf - 1 - j) else 0))"
proof (cases "j < length buf")
  case True
  have c: "js_nth (replicate p (Fin c)) (int j) = Fin c" using assms by (simp add: js_nth_nat)
  have i: "int (length (map Fin buf)) - int j - 1 = int (length buf - 1 - j)"
    using True by (simp add: of_nat_diff)
  have "js_nth (map Fin buf) (int (length buf - 1 - j)) = map Fin buf ! (length buf - 1 - j)"
    by (rule js_nth_nat) (use True in simp)
  then have b: "js_nth (map Fin buf) (int (length buf - 1 - j)) = Fin (buf ! (length buf - 1 - j))"
    using True by simp
  show ?thesis unfolding Let_def i b c using True by simp
next
  case False
  then have "\<not> 0 \<le> int (length (map Fin buf)) - int j - 1" by simp
  then show ?thesis unfolding Let_def using False by simp
qed

lemma ar_fold_finite:
  assumes "\<And>j. j \<in> set js \<Longrightarrow> j < p"
  shows "foldl (\<lambda>f j. let index = int (length (map Fin buf)) - j - 1
                        in if 0 \<le> index
                           then js_add f (js_mul (js_nth (replicate p (Fin c)) j)
                                                 (js_nth (map Fin buf) index))
                           else f)
               (Fin a) (map int js)
         = Fin (a + sum_list (map (\<lambda>j. if j < length buf then c * buf ! (length buf - 1 - j) else 0) js))"
    (is "foldl ?F (Fin a) (map int js) = Fin (a + sum_list (map ?h js))")
  using assms
proof (induction js arbitrary: a)
  case Nil
  then show ?case by simp
next
  case (Cons j js)
  have jp: "j < p" using Cons.prems by simp
  have rest: "\<And>i. i \<in> set js \<Longrightarrow> i < p" using Cons.prems by simp
  have "foldl ?F (Fin a) (map int (j # js)) = foldl ?F (?F (Fin a) (int j)) (map int js)"
    by (simp only: list.map foldl_Cons)
  also have "?F (Fin a) (int j) = Fin (a + ?h j)" by (rule ar_step_finite[OF jp])
  also have "foldl ?F (Fin (a + ?h j)) (map int js) = Fin (a + ?h j + sum_list (map ?h js))"
    by (rule Cons.IH[OF rest])
  finally show ?case by (simp add: add.assoc)
qed

lemma ar_component_lags:
  "ar_component (replicate p (Fin c)) (int p) (map Fin buf)
   = Fin (\<Sum>j<p. if j < length buf then c * buf ! (length buf - 1 - j) else 0)"
  unfolding ar_component_def upto_from_0
  by (subst ar_fold_finite) (simp_all add: sum_list_upt)

lemma ar_component_finite:
  "c = 0.7 / real p \<Longrightarrow>
   ar_component (replicate p (Fin c)) (int p) (map Fin buf) = Fin (ar_next p buf)"
  by (simp only: ar_component_lags ar_next_def)

lemma ar_loop_finite:
  assumes "c = 0.7 / real p"
  shows "ar_loop (replicate p (Fin c)) (int p) k (map Fin buf) = map Fin (ar_forecasts p k buf)"
proof (induction k arbitrary: buf)
  case 0
  then show ?case by simp
next
  case (Suc k)
  have e: "map Fin buf @ [Fin (ar_next p buf)] = map Fin (buf @ [ar_next p buf])" by simp
  show ?case
    unfolding ar_loop.simps Let_def ar_component_finite[OF assms] e Suc by simp
qed

lemma undo_chain_finite:
  assumes "\<And>i. i \<in> set js \<Longrightarrow> i < length ys"
  shows "foldl (\<lambda>f i. undiff f (js_nth (map Fin ys) (int (length (map Fin ys)) - 1 - i)))
               (map Fin xs) (map int js)
         = map Fin (foldl (\<lambda>f i. cumsum_from (ys ! (length ys - 1 - i)) f) xs js)"
    (is "foldl ?U (map Fin xs) (map int js) = map Fin (foldl ?C xs js)")
  using assms
proof (induction js arbitrary: xs)
  case Nil
  then show ?case by simp
next
  case (Cons j js)
  have j: "j < length ys" using Cons.prems by simp
  have rest: "\<And>i. i \<in> set js \<Longrightarrow> i < length ys" using Cons.prems by simp
  have i: "int (length (map Fin ys)) - 1 - int j = int (length ys - 1 - j)"
    using j by (simp add: of_nat_diff)
  have "js_nth (map Fin ys) (int (length ys - 1 - j)) = map Fin ys ! (length ys - 1 - j)"
    by (rule js_nth_nat) (use j in simp)
  then have s: "js_nth (map Fin ys) (int (length ys - 1 - j)) = Fin (ys ! (length ys - 1 - j))"
    using j by simp
  have "foldl ?U (map Fin xs) (map int (j # js)) = foldl ?U (?U (map Fin xs) (int j)) (map int js)"
    by (simp only: list.map foldl_Cons)
  also have "?U (map Fin xs) (int j) = map Fin (?C xs j)"
    unfolding i s by (rule undiff_finite)
  also have "foldl ?U (map Fin (?C xs j)) (map int js) = map Fin (foldl ?C (?C xs j) js)"
    by (rule Cons.IH[OF rest])
  finally show ?case by simp
qed

lemma standardDeviation_finite:
  assumes "0 < length ys"
  shows "standardDeviation (map Fin ys) = Fin (stddev ys)"
proof -
  define m where "m = length ys"
  have m: "real m \<noteq> 0" using assms by (simp add: m_def)
  have mean: "js_div (foldl (\<lambda>s v. js_add s v) (Fin 0) (map Fin ys)) (Fin (real (length (map Fin ys))))
              = Fin ((\<Sum>i<m. ys ! i) / real m)"
    using m by (simp add: foldl_js_add_Fin sum_list_sum_nth atLeast0LessThan m_def)
  have sq: "foldl (\<lambda>s v. js_add s v) (Fin 0)
              (map (\<lambda>v. Math_pow2 (js_sub v (Fin ((\<Sum>i<m. ys ! i) / real m)))) (map Fin ys))
            = Fin (\<Sum>i<m. (ys ! i - (\<Sum>i<m. ys ! i) / real m)\<^sup>2)"
  proof -
    have l: "map (\<lambda>v. Math_pow2 (js_sub v (Fin ((\<Sum>i<m. ys ! i) / real m)))) (map Fin ys)
             = map (\<lambda>i. Math_pow2 (js_sub (Fin (ys ! i)) (Fin ((\<Sum>i<m. ys ! i) / real m)))) [0..<m]"
      by (rule nth_equalityI) (simp_all add: m_def)
    show ?thesis
      unfolding l
      by (rule foldl_js_add_upt[where f="\<lambda>v. v"]) (simp add: power2_eq_square)
  qed
  have nn: "0 \<le> (\<Sum>i<m. (ys ! i - (\<Sum>i<m. ys ! i) / real m)\<^sup>2)" by (simp add: sum_nonneg)
  show ?thesis
    unfolding standardDeviation_def Let_def mean sq
    using m nn by (simp add: stddev_def m_def not_less)
qed

lemma arima_width_finite:
  "0 \<le> sd \<Longrightarrow> arima_width (Fin sd) i = Fin (1.96 * sd * sqrt (real i + 1))"
  by (simp add: arima_width_def tValue_def)

lemma intervals_around_finite:
  "intervals_around (map Fin F) (\<lambda>i. Fin (w i))
   = map (\<lambda>i. \<lparr> lower = Fin (F ! i - w i), upper = Fin (F ! i + w i) \<rparr>) [0..<length F]"
  by (rule nth_equalityI) (simp_all add: nth_intervals_around)

lemma length_cumsum_from [simp]: "length (cumsum_from s xs) = length xs"
  by (induction xs arbitrary: s) simp_all

lemma length_ar_forecasts [simp]: "length (ar_forecasts p k buf) = k"
  by (induction k arbitrary: buf) simp_all

lemma length_arima_forecast [simp]: "length (arima_forecast p d k ys) = k"
proof -
  have "length (foldl (\<lambda>f i. cumsum_from (g i) f) xs js) = length xs" for g xs and js :: "nat list"
    by (induction js arbitrary: xs) simp_all
  then show ?thesis by (simp add: arima_forecast_def)
qed

lemma arima_finite:
  assumes p: "int_or (opt_p opts) 1 = int p" "p \<le> 4294967295"
    and q: "0 \<le> int_or (opt_q opts) 1" "int_or (opt_q opts) 1 \<le> 4294967295"
    and d: "int_or (opt_d opts) 0 = int d" "d \<le> length ys"
    and n: "0 < length ys"
    and k: "opt_periods opts = Some (int k)"
  shows "arima (map Fin ys) opts =
     Inr \<lparr> method_name = ''arima'', historicalData = map Fin ys,
           forecast = map Fin (arima_forecast p d k ys),
           predictionIntervals =
             map (\<lambda>i. \<lparr> lower = Fin (arima_forecast p d k ys ! i - arima_halfwidth ys i),
                           upper = Fin (arima_forecast p d k ys ! i + arima_halfwidth ys i) \<rparr>)
                 [0..<k],
           statistics = [(''p'', Fin (real p)), (''d'', Fin (real d)),
                         (''q'', Fin (of_int (int_or (opt_q opts) 1)))] \<rparr>"
proof -
  have p0: "p \<noteq> 0" using p(1) by (auto simp: int_or_def split: option.splits if_splits)
  have ar: "Array_fill (Some (int p)) (js_div (Fin 0.7) (Fin (real p)))
            = Inr (replicate p (Fin (0.7 / real p)))"
    using p(2) p0 by (simp add: Array_fill_def)
  have ma: "Array_fill (Some (int_or (opt_q opts) 1)) v
            = Inr (replicate (nat (int_or (opt_q opts) 1)) v)" for v
    using q by (simp add: Array_fill_def)
  have dd: "(diff ^^ d) (map Fin ys) = map Fin ((diff_r ^^ d) ys)"
    by (simp add: diff_pow_finite)
  have dr: "[0 .. int d - 1] = map int [0..<d]" by (rule upto_from_0)
  have undo: "foldl (\<lambda>f i. undiff f (js_nth (map Fin ys) (int (length (map Fin ys)) - 1 - i)))
               (map Fin (ar_forecasts p k ((diff_r ^^ d) ys))) (map int [0..<d])
             = map Fin (arima_forecast p d k ys)"
    unfolding arima_forecast_def
    by (rule undo_chain_finite) (use d(2) in simp)
  have sd: "0 \<le> stddev ys"
    unfolding stddev_def using n by (simp add: sum_nonneg)
  have w: "arima_width (Fin (stddev ys)) = (\<lambda>i. Fin (arima_halfwidth ys i))"
    by (rule ext) (simp only: arima_width_finite[OF sd] arima_halfwidth_def)
  show ?thesis
    unfolding arima_def Let_def p(1) d(1) of_int_of_nat_eq dd ar sum.case ma
      k loop_count_def option.case nat_int ar_loop_finite[OF refl] dr undo
      standardDeviation_finite[OF n] w intervals_around_finite length_arima_forecast
    by simp
qed

text \<open>
  Claim C7. On a non-empty series of finite numbers, with orders \<open>p\<close> and \<open>q\<close> the
  array constructor accepts, a differencing order \<open>d\<close> of at most the length of the
  series and \<open>k\<close> periods, ARIMA returns the forecast \<open>arima_forecast p d k\<close>: the
  series differenced \<open>d\<close> times, \<open>k\<close> autoregressive steps with the coefficients
  \<open>0.7 / p\<close>, each appended to the buffer, and \<open>d\<close> cumulative summations seeded with
  the last \<open>d\<close> values of the series. The moving-average coefficients \<open>0.3 / q\<close> do
  not occur in it. The \<open>i\<close>-th interval has the half-width
  \<open>1.96 * stddev series * sqrt (i + 1)\<close>. With \<open>p = 1\<close> and \<open>d = 0\<close> on
  \<open>[10, 10, 10]\<close> the first forecast is \<open>0.7 * 10 = 7\<close>.
\<close>

theorem arima_formulas:
  assumes "int_or (opt_p opts) 1 = int p" and "p \<le> 4294967295"
    and "0 \<le> int_or (opt_q opts) 1" and "int_or (opt_q opts) 1 \<le> 4294967295"
    and "int_or (opt_d opts) 0 = int d" and "d \<le> length ys"
    and "0 < length ys"
    and "opt_periods opts = Some (int k)"
  shows "(\<exists>r. arima (map Fin ys) opts = Inr r \<and>
              forecast r = map Fin (arima_forecast p d k ys) \<and>
              predictionIntervals r =
                map (\<lambda>i. \<lparr> lower = Fin (arima_forecast p d k ys ! i - arima_halfwidth ys i),
                              upper = Fin (arima_forecast p d k ys ! i + arima_halfwidth ys i) \<rparr>)
                    [0..<k]) \<and>
         (p = 1 \<and> d = 0 \<and> 0 < k \<longrightarrow>
            (\<exists>r. arima (map Fin [10, 10, 10]) opts = Inr r \<and>
                  forecast r ! 0 = Fin (0.7 * 10) \<and> forecast r ! 0 = Fin 7))"
proof -
  have ex: "arima_forecast 1 0 k [10, 10, 10] ! 0 = 7" if "0 < k"
  proof -
    from that obtain k' where k: "k = Suc k'" by (cases k) simp_all
    show ?thesis unfolding k by (simp add: arima_forecast_def ar_next_def)
  qed
  have le: "d = 0 \<Longrightarrow> d \<le> length [10, 10, 10 :: real]" "0 < length [10, 10, 10 :: real]"
    by simp_all
  show ?thesis
    using arima_finite[OF assms]
      arima_finite[OF assms(1-5) le assms(8)] ex
    by auto
qed

theorem arima_formulas_witness:
  "int_or (opt_p (no_options\<lparr> opt_periods := Some 2 \<rparr>)) 1 = int 1 \<and>
   0 \<le> int_or (opt_q (no_options\<lparr> opt_periods := Some 2 \<rparr>)) 1 \<and>
   int_or (opt_q (no_options\<lparr> opt_periods := Some 2 \<rparr>)) 1 \<le> 4294967295 \<and>
   int_or (opt_d (no_options\<lparr> opt_periods := Some 2 \<rparr>)) 0 = int 0 \<and>
   0 \<le> length [10, 10, 10 :: real] \<and> 0 < length [10, 10, 10 :: real] \<and>
   opt_periods (no_options\<lparr> opt_periods := Some 2 \<rparr>) = Some (int 2) \<and>
   (\<exists>r. arima (map Fin [10, 10, 10]) (no_options\<lparr> opt_periods := Some 2 \<rparr>) = Inr r \<and>
        forecast r = [Fin 7, Fin (49 / 10)])"
proof -
  have f: "arima_forecast (Suc 0) 0 2 [10, 10, 10] = [7, 49 / 10]"
    by (simp add: arima_forecast_def ar_next_def numeral_2_eq_2)
  show ?thesis
    using arima_formulas [of "no_options\<lparr> opt_periods := Some 2 \<rparr>" 1 0 "[10, 10, 10]" 2]
    by (auto simp: no_options_def int_or_def f)
qed

section \<open>What the Monte Carlo simulation reports\<close>
















lemma length_run_simulations [simp]: "length (run_simulations rnd m s P l i k) = i"
  by (induction i arbitrary: k) (simp_all add: split_beta Let_def)





section \<open>The input series is never written\<close>

text \<open>
  Every write of a call goes to an object the call has allocated itself, so the objects that
  were in the heap before the call, the input series among them, come back unchanged. The
  loops bounded by the length of the series therefore return.
\<close>

lemma keeps_refl [simp]: "keeps n h h"
  by (simp add: keeps_def)

lemma keeps_trans: "keeps n h h1 \<Longrightarrow> keeps n h1 h2 \<Longrightarrow> keeps n h h2"
  by (simp add: keeps_def)

lemma keeps_alloc: "n \<le> length h \<Longrightarrow> alloc ob h = (r, h1) \<Longrightarrow> keeps n h h1 \<and> r = length h \<and> length h1 = Suc (length h)"
  by (auto simp: alloc_def keeps_def)

lemma keeps_push [simp]: "n \<le> r \<Longrightarrow> keeps n h (push r v h)"
  by (simp add: push_def keeps_def split: obj.splits)

lemma keeps_push_path [simp]: "n \<le> r \<Longrightarrow> keeps n h (push_path r p h)"
  by (simp add: push_path_def keeps_def split: obj.splits)

lemma keeps_push_interval [simp]: "n \<le> r \<Longrightarrow> keeps n h (push_interval r iv h)"
  by (simp add: push_interval_def keeps_def split: obj.splits)

lemma keeps_sort_in_place [simp]: "n \<le> r \<Longrightarrow> keeps n h (sort_in_place r h)"
  by (simp add: sort_in_place_def keeps_def split: obj.splits)

lemma length_push [simp]: "length (push r v h) = length h"
  by (simp add: push_def split: obj.splits)

lemma length_push_path [simp]: "length (push_path r p h) = length h"
  by (simp add: push_path_def split: obj.splits)

lemma length_push_interval [simp]: "length (push_interval r iv h) = length h"
  by (simp add: push_interval_def split: obj.splits)

lemma length_sort_in_place [simp]: "length (sort_in_place r h) = length h"
  by (simp add: sort_in_place_def split: obj.splits)

lemma keeps_length: "keeps n h h' \<Longrightarrow> length h \<le> length h'"
  by (simp add: keeps_def)

lemma keeps_nth: "keeps n h h' \<Longrightarrow> r < n \<Longrightarrow> n \<le> length h \<Longrightarrow> h' ! r = h ! r"
  unfolding keeps_def by (metis nth_take)

lemma numbers_keeps: "keeps n h h' \<Longrightarrow> r < n \<Longrightarrow> n \<le> length h \<Longrightarrow> numbers h' r = numbers h r"
  using keeps_nth[of n h h' r] keeps_length[of n h h'] by (simp add: numbers_def)

lemma numbers_push_other [simp]: "r \<noteq> r' \<Longrightarrow> numbers (push r v h) r' = numbers h r'"
  by (cases "h ! r") (simp_all add: numbers_def push_def)

lemma numbers_alloc_old [simp]: "r < length h \<Longrightarrow> numbers (h @ [ob]) r = numbers h r"
  by (simp add: numbers_def nth_append)

text \<open>
  The loops whose bound is the length of an array: each pushes onto another array, so the
  bound stays and the loop ends.
\<close>

lemma smooth_st_keeps:
  assumes "hist \<noteq> smoothed" and "n \<le> smoothed"
  shows "\<exists>h'. smooth_st a hist smoothed i h = Some h' \<and> keeps n h h'"
proof (induction "length (numbers h hist) - i" arbitrary: i h)
  case 0
  then show ?case by (subst smooth_st.simps) simp
next
  case (Suc m)
  let ?h1 = "push smoothed
                (js_add (js_mul a (js_nth (numbers h hist) (int i)))
                        (js_mul (js_sub (Fin 1) a) (js_nth (numbers h smoothed) (int i - 1)))) h"
  have k1: "keeps n h ?h1" using assms(2) by simp
  have "m = length (numbers ?h1 hist) - (i + 1)" using Suc.hyps(2) assms(1) by simp
  then obtain h' where h': "smooth_st a hist smoothed (i + 1) ?h1 = Some h'" "keeps n ?h1 h'"
    using Suc.hyps(1) by blast
  have lt: "i < length (numbers h hist)" using Suc.hyps(2) by simp
  show ?case
    by (subst smooth_st.simps) (use lt h' keeps_trans[OF k1 h'(2)] in simp)
qed

lemma diff_loop_keeps:
  assumes "data \<noteq> result" and "n \<le> result"
  shows "\<exists>h'. diff_loop data result i h = Some h' \<and> keeps n h h' \<and> length h' = length h"
proof (induction "length (numbers h data) - i" arbitrary: i h)
  case 0
  then show ?case by (subst diff_loop.simps) simp
next
  case (Suc m)
  let ?h1 = "push result (js_sub (js_nth (numbers h data) (int i))
                                 (js_nth (numbers h data) (int i - 1))) h"
  have k1: "keeps n h ?h1" using assms(2) by simp
  have "m = length (numbers ?h1 data) - (i + 1)" using Suc.hyps(2) assms(1) by simp
  then obtain h' where h': "diff_loop data result (i + 1) ?h1 = Some h'" "keeps n ?h1 h'"
    "length h' = length ?h1"
    using Suc.hyps(1) by blast
  have lt: "i < length (numbers h data)" using Suc.hyps(2) by simp
  show ?case
    by (subst diff_loop.simps) (use lt h' keeps_trans[OF k1 h'(2)] in simp)
qed

lemma undiff_loop_keeps:
  assumes "diffData \<noteq> result" and "n \<le> result"
  shows "\<exists>h'. undiff_loop diffData result i h = Some h' \<and> keeps n h h' \<and> length h' = length h"
proof (induction "length (numbers h diffData) - i" arbitrary: i h)
  case 0
  then show ?case by (subst undiff_loop.simps) simp
next
  case (Suc m)
  let ?h1 = "push result (js_add (js_nth (numbers h result) (int i))
                                 (js_nth (numbers h diffData) (int i))) h"
  have k1: "keeps n h ?h1" using assms(2) by simp
  have "m = length (numbers ?h1 diffData) - (i + 1)" using Suc.hyps(2) assms(1) by simp
  then obtain h' where h': "undiff_loop diffData result (i + 1) ?h1 = Some h'" "keeps n ?h1 h'"
    "length h' = length ?h1"
    using Suc.hyps(1) by blast
  have lt: "i < length (numbers h diffData)" using Suc.hyps(2) by simp
  show ?case
    by (subst undiff_loop.simps) (use lt h' keeps_trans[OF k1 h'(2)] in simp)
qed

lemma percent_loop_keeps:
  assumes "hist \<noteq> pcs" and "n \<le> pcs"
  shows "\<exists>h'. percent_loop hist pcs i h = Some h' \<and> keeps n h h'"
proof (induction "length (numbers h hist) - i" arbitrary: i h)
  case 0
  then show ?case by (subst percent_loop.simps) simp
next
  case (Suc m)
  let ?h1 = "push pcs (js_sub (js_div (js_nth (numbers h hist) (int i))
                                       (js_nth (numbers h hist) (int i - 1))) (Fin 1)) h"
  have k1: "keeps n h ?h1" using assms(2) by simp
  have "m = length (numbers ?h1 hist) - (i + 1)" using Suc.hyps(2) assms(1) by simp
  then obtain h' where h': "percent_loop hist pcs (i + 1) ?h1 = Some h'" "keeps n ?h1 h'"
    using Suc.hyps(1) by blast
  have lt: "i < length (numbers h hist)" using Suc.hyps(2) by simp
  show ?case
    by (subst percent_loop.simps) (use lt h' keeps_trans[OF k1 h'(2)] in simp)
qed

lemma error_loop_keeps:
  assumes "hist \<noteq> errors" and "n \<le> errors"
  shows "\<exists>h'. error_loop w hist mas errors i h = Some h' \<and> keeps n h h'"
proof (induction "nat (int (length (numbers h hist)) - i)" arbitrary: i h)
  case 0
  then show ?case by (subst error_loop.simps) simp
next
  case (Suc m)
  let ?h1 = "push errors (js_sub (js_nth (numbers h hist) i)
                                 (js_nth (numbers h mas) (i - w + 1))) h"
  have k1: "keeps n h ?h1" using assms(2) by simp
  have "m = nat (int (length (numbers ?h1 hist)) - (i + 1))" using Suc.hyps(2) assms(1) by simp
  then obtain h' where h': "error_loop w hist mas errors (i + 1) ?h1 = Some h'" "keeps n ?h1 h'"
    using Suc.hyps(1) by blast
  have lt: "i < int (length (numbers h hist))" using Suc.hyps(2) by simp
  show ?case
    by (subst error_loop.simps) (use lt h' keeps_trans[OF k1 h'(2)] in \<open>simp add: Let_def\<close>)
qed

lemma average_loop_keeps:
  assumes "hist \<noteq> mas" and "n \<le> mas" and "hist < length h" and "n \<le> length h"
  shows "\<exists>h'. average_loop w hist mas i h = Some h' \<and> keeps n h h'"
  using assms(3,4)
proof (induction "nat (int (length (numbers h hist)) - i)" arbitrary: i h)
  case 0
  then show ?case by (subst average_loop.simps) simp
next
  case (Suc m)
  let ?h0 = "h @ [Numbers (js_slice (numbers h hist) (i - w + 1) (i + 1))]"
  let ?h1 = "push mas (js_div (foldl (\<lambda>s v. js_add s v) (Fin 0) (numbers ?h0 (length h)))
                              (Fin (of_int w))) ?h0"
  have k0: "keeps n h ?h0" using Suc.prems by (simp add: keeps_def)
  have k1: "keeps n h ?h1" using assms(2) keeps_trans[OF k0] by simp
  have nb: "numbers ?h1 hist = numbers h hist" using assms(1) Suc.prems by simp
  have "m = nat (int (length (numbers ?h1 hist)) - (i + 1))" using Suc.hyps(2) nb by simp
  moreover have "hist < length ?h1" "n \<le> length ?h1" using Suc.prems by simp_all
  ultimately obtain h' where h': "average_loop w hist mas (i + 1) ?h1 = Some h'" "keeps n ?h1 h'"
    using Suc.hyps(1) by blast
  have lt: "i < int (length (numbers h hist))" using Suc.hyps(2) by simp
  show ?case
    by (subst average_loop.simps)
       (use lt h' keeps_trans[OF k1 h'(2)] in \<open>simp add: Let_def alloc_def\<close>)
qed

lemma keeps_appends: "keeps n h h1 \<Longrightarrow> n \<le> length h \<Longrightarrow> keeps n h (h1 @ obs)"
  by (simp add: keeps_def)

lemma keeps_grow: "keeps n h h1 \<Longrightarrow> n \<le> length h \<Longrightarrow> n \<le> length h1"
  by (simp add: keeps_def)

lemma foldl_push_keeps:
  "n \<le> r \<Longrightarrow> keeps n h (foldl (\<lambda>hp i. push r (g i) hp) h js)"
proof (induction js arbitrary: h)
  case Nil
  then show ?case by simp
next
  case (Cons j js)
  show ?case using keeps_trans[OF keeps_push[OF Cons.prems] Cons.IH[OF Cons.prems]] by simp
qed

lemma linearRegression_st_keeps:
  assumes "n \<le> length h"
  shows "keeps n h (snd (linearRegression_st hist opts h))"
  unfolding linearRegression_st_def Let_def alloc_def split_beta fst_conv snd_conv
  apply (rule keeps_appends[OF _ assms])+
  apply (rule keeps_trans[OF _ foldl_push_keeps])
   apply (rule keeps_appends[OF _ assms])+
   apply (rule keeps_refl)
  using assms apply simp
  done

lemma exponentialSmoothing_st_keeps:
  assumes "hist < length h" and "n \<le> length h"
  shows "\<exists>res h'. exponentialSmoothing_st hist opts h = Some (res, h') \<and> keeps n h h'"
proof -
  let ?h1 = "h @ [Numbers [js_nth (numbers h hist) 0]]"
  have k1: "keeps n h ?h1" using assms by (simp add: keeps_def)
  obtain h2 where h2: "smooth_st (js_or (opt_alpha opts) (Fin 0.3)) hist (length h) 1 ?h1 = Some h2"
    "keeps n ?h1 h2"
    using smooth_st_keeps[of hist "length h" n] assms by blast
  have k2: "keeps n h h2" by (rule keeps_trans[OF k1 h2(2)])
  have n2: "n \<le> length h2" using keeps_grow[OF k2 assms(2)] .
  show ?thesis
    unfolding exponentialSmoothing_st_def Let_def alloc_def split_beta fst_conv snd_conv h2(1)
      option.case
    using k2 assms(2)
    by (auto split: sum.splits intro!: keeps_appends)
qed

lemma movingAverage_st_keeps:
  assumes "hist < length h" and "n \<le> length h"
  shows "\<exists>res h'. movingAverage_st hist opts h = Some (res, h') \<and> keeps n h h'"
proof (cases "int (length (numbers h hist)) < int_or (opt_windowSize opts) 3")
  case True
  then show ?thesis by (simp add: movingAverage_st_def Let_def)
next
  case False
  let ?w = "int_or (opt_windowSize opts) 3"
  let ?h1 = "h @ [Numbers []]"
  have k1: "keeps n h ?h1" using assms by (simp add: keeps_def)
  obtain h2 where h2: "average_loop ?w hist (length h) (?w - 1) ?h1 = Some h2" "keeps n ?h1 h2"
    using average_loop_keeps[of hist "length h" n ?h1] assms by auto
  have k2: "keeps n h h2" by (rule keeps_trans[OF k1 h2(2)])
  have n2: "n \<le> length h2" using keeps_grow[OF k2 assms(2)] .
  have l2: "hist < length h2" using keeps_length[OF k2] assms(1) by simp
  show ?thesis
  proof (cases "Array_fill (opt_periods opts)
                  (js_nth (numbers h2 (length h)) (int (length (numbers h2 (length h))) - 1))")
    case (Inl e)
    then show ?thesis
      unfolding movingAverage_st_def Let_def alloc_def split_beta fst_conv snd_conv
      using False h2(1) k2 by simp
  next
    case (Inr filled)
    let ?h4 = "h2 @ [Numbers filled] @ [Numbers []]"
    have k4: "keeps n h ?h4" using k2 n2 by (simp add: keeps_def)
    obtain h5 where h5: "error_loop ?w hist (length h) (Suc (length h2)) (?w - 1) ?h4 = Some h5"
      "keeps n ?h4 h5"
      using error_loop_keeps[of hist "Suc (length h2)" n] l2 n2 by (metis Suc_n_not_le_n le_SucI less_imp_le_nat)
    have k5: "keeps n h h5" by (rule keeps_trans[OF k4 h5(2)])
    have n5: "n \<le> length h5" using keeps_grow[OF k5 assms(2)] .
    show ?thesis
      unfolding movingAverage_st_def Let_def alloc_def split_beta fst_conv snd_conv
      using False h2(1) Inr h5(1) k5 assms(2)
      by (simp add: keeps_appends)
  qed
qed

lemma diff_st_keeps:
  assumes "data < length h" and "n \<le> length h"
  shows "\<exists>h'. diff_st data h = Some (length h, h') \<and> keeps n h h' \<and> length h' = Suc (length h)"
proof -
  let ?h1 = "h @ [Numbers []]"
  obtain h2 where h2: "diff_loop data (length h) 1 ?h1 = Some h2" "keeps n ?h1 h2"
    "length h2 = length ?h1"
    using diff_loop_keeps[of data "length h" n 1 ?h1] assms by auto
  have "keeps n h ?h1" using assms(2) by (simp add: keeps_def)
  then have "keeps n h h2" using h2(2) by (rule keeps_trans)
  then show ?thesis using h2(1,3) by (simp add: diff_st_def alloc_def)
qed

lemma diff_times_keeps:
  assumes "data < length h" and "n \<le> data"
  shows "\<exists>r h'. diff_times k data h = Some (r, h') \<and> keeps n h h' \<and> n \<le> r \<and> r < length h'"
  using assms
proof (induction k arbitrary: data h)
  case 0
  then show ?case by simp
next
  case (Suc k)
  have n: "n \<le> length h" using Suc.prems by simp
  obtain h1 where h1: "diff_st data h = Some (length h, h1)" "keeps n h h1"
    "length h1 = Suc (length h)"
    using diff_st_keeps[OF Suc.prems(1) n] by blast
  obtain r h' where r: "diff_times k (length h) h1 = Some (r, h')" "keeps n h1 h'" "n \<le> r"
    "r < length h'"
    using Suc.IH[of "length h" h1] h1(3) n by auto
  show ?case using h1(1) r keeps_trans[OF h1(2) r(2)] by simp
qed

lemma undiff_st_keeps:
  assumes "fc < length h" and "n \<le> length h"
  shows "\<exists>r h'. undiff_st fc v h = Some (r, h') \<and> keeps n h h' \<and> r < length h'"
proof -
  let ?h1 = "h @ [Numbers [v]]"
  obtain h2 where h2: "undiff_loop fc (length h) 0 ?h1 = Some h2" "keeps n ?h1 h2"
    "length h2 = length ?h1"
    using undiff_loop_keeps[of fc "length h" n 0 ?h1] assms by auto
  have "keeps n h ?h1" using assms(2) by (simp add: keeps_def)
  then have k2: "keeps n h h2" using h2(2) by (rule keeps_trans)
  show ?thesis using h2(1) keeps_appends[OF k2 assms(2)] by (simp add: undiff_st_def alloc_def)
qed

lemma undiff_times_keeps:
  assumes "fc < length h" and "n \<le> length h"
  shows "\<exists>r h'. undiff_times hist js fc h = Some (r, h') \<and> keeps n h h' \<and> r < length h'"
  using assms
proof (induction js arbitrary: fc h)
  case Nil
  then show ?case by simp
next
  case (Cons j js)
  let ?v = "js_nth (numbers h hist) (int (length (numbers h hist)) - 1 - j)"
  obtain r1 h1 where h1: "undiff_st fc ?v h = Some (r1, h1)" "keeps n h h1" "r1 < length h1"
    using undiff_st_keeps[OF Cons.prems] by blast
  have "n \<le> length h1" using keeps_grow[OF h1(2) Cons.prems(2)] .
  then obtain r h' where r: "undiff_times hist js r1 h1 = Some (r, h')" "keeps n h1 h'"
    "r < length h'"
    using Cons.IH[OF h1(3)] by blast
  show ?case using h1(1) r keeps_trans[OF h1(2) r(2)] by simp
qed

lemma ar_loop_st_keeps:
  assumes "n \<le> diffData" and "n \<le> diffForecast"
  shows "keeps n h (ar_loop_st arParams p diffData diffForecast k h)"
proof (induction k arbitrary: h)
  case 0
  then show ?case by simp
next
  case (Suc k)
  have "keeps n h (push diffData f (push diffForecast f h))" for f
    by (rule keeps_trans[OF keeps_push[OF assms(2)] keeps_push[OF assms(1)]])
  then show ?case using Suc.IH keeps_trans by (simp add: Let_def) blast
qed

lemma standardDeviation_st_keeps:
  "n \<le> length h \<Longrightarrow> keeps n h (snd (standardDeviation_st data h))"
  by (simp add: standardDeviation_st_def Let_def alloc_def keeps_def)

lemma arima_st_keeps:
  assumes "hist < length h" and "n \<le> length h"
  shows "\<exists>res h'. arima_st hist opts h = Some (res, h') \<and> keeps n h h'"
proof -
  let ?p = "int_or (opt_p opts) 1" and ?d = "int_or (opt_d opts) 0" and ?q = "int_or (opt_q opts) 1"
  let ?h1 = "h @ [Numbers (numbers h hist)]"
  have k1: "keeps n h ?h1" using assms(2) by (simp add: keeps_def)
  obtain diffData h2 where h2: "diff_times (nat ?d) (length h) ?h1 = Some (diffData, h2)"
    "keeps n ?h1 h2" "n \<le> diffData" "diffData < length h2"
    using diff_times_keeps[where data = "length h" and h = ?h1 and n = n and k = "nat ?d"] assms(2)
    by auto
  have k2: "keeps n h h2" by (rule keeps_trans[OF k1 h2(2)])
  note n2 = keeps_grow[OF k2 assms(2)]
  show ?thesis
  proof (cases "Array_fill (Some ?p) (js_div (Fin 0.7) (Fin (of_int ?p)))")
    case (Inl e)
    then show ?thesis using h2(1) k2 by (simp add: arima_st_def alloc_def Let_def)
  next
    case ars: (Inr ars)
    show ?thesis
    proof (cases "Array_fill (Some ?q) (js_div (Fin 0.3) (Fin (of_int ?q)))")
      case (Inl e)
      then show ?thesis using h2(1) ars keeps_appends[OF k2 assms(2)]
        by (simp add: arima_st_def alloc_def Let_def)
    next
      case mas: (Inr mas)
      let ?h5 = "h2 @ [Numbers ars] @ [Numbers mas] @ [Numbers []]"
      let ?fc = "Suc (Suc (length h2))"
      let ?h6 = "ar_loop_st (length h2) ?p diffData ?fc (loop_count (opt_periods opts)) ?h5"
      let ?h7 = "?h6 @ [Numbers (numbers ?h6 ?fc)]"
      have k5: "keeps n h ?h5" by (rule keeps_appends[OF k2 assms(2)])
      have "keeps n ?h5 ?h6" by (rule ar_loop_st_keeps[OF h2(3)]) (use n2 in simp)
      then have k6: "keeps n h ?h6" by (rule keeps_trans[OF k5])
      have k7: "keeps n h ?h7" by (rule keeps_appends[OF k6 assms(2)])
      note n7 = keeps_grow[OF k7 assms(2)]
      obtain fc h8 where h8: "undiff_times hist [0 .. ?d - 1] (length ?h6) ?h7 = Some (fc, h8)"
        "keeps n ?h7 h8"
        using undiff_times_keeps[where fc = "length ?h6" and h = ?h7 and n = n and hist = hist
            and js = "[0 .. ?d - 1]", OF _ n7]
        by auto
      have k8: "keeps n h h8" by (rule keeps_trans[OF k7 h8(2)])
      note n8 = keeps_grow[OF k8 assms(2)]
      have "keeps n h8 (snd (standardDeviation_st hist h8))"
        by (rule standardDeviation_st_keeps[OF n8])
      then have k9: "keeps n h (snd (standardDeviation_st hist h8))" by (rule keeps_trans[OF k8])
      show ?thesis
        unfolding arima_st_def Let_def alloc_def split_beta fst_conv snd_conv
        using h2(1) ars mas h8(1) keeps_appends[OF k9 assms(2)]
        by simp
    qed
  qed
qed

lemma generateForecast_st_keeps:
  assumes "hist < length h" and "n \<le> length h"
  shows "\<exists>res h'. generateForecast_st (ArrayAt hist) opts h = Some (res, h') \<and> keeps n h h'"
  using linearRegression_st_keeps[OF assms(2), of hist "merge_defaults opts"]
    exponentialSmoothing_st_keeps[OF assms, of "merge_defaults opts"]
    movingAverage_st_keeps[OF assms, of "merge_defaults opts"]
    arima_st_keeps[OF assms, of "merge_defaults opts"]
  by (simp add: generateForecast_st_def Let_def split_beta split: option.splits)

lemma simulate_st_keeps:
  "n \<le> simulation \<Longrightarrow> keeps n h (snd (simulate_st rnd mean stdDev simulation j c k h))"
proof (induction c arbitrary: j k h)
  case 0
  then show ?case by simp
next
  case (Suc c)
  show ?case
    unfolding simulate_st.simps Let_def split_beta
    by (rule keeps_trans[OF keeps_push[OF Suc.prems] Suc.IH[OF Suc.prems]])
qed

lemma run_simulations_st_keeps:
  "n \<le> simulations \<Longrightarrow> n \<le> length h \<Longrightarrow>
   keeps n h (snd (run_simulations_st rnd mean stdDev periods lastValue simulations i k h))"
proof (induction i arbitrary: k h)
  case 0
  then show ?case by simp
next
  case (Suc i)
  let ?h1 = "h @ [Numbers [lastValue]]"
  let ?s = "simulate_st rnd mean stdDev (length h) 0 periods k ?h1"
  let ?h3 = "snd ?s @ [Numbers (js_slice (numbers (snd ?s) (length h)) 1
                                  (int (length (numbers (snd ?s) (length h)))))]"
  let ?h4 = "push_path simulations (length (snd ?s)) ?h3"
  have k1: "keeps n h ?h1" using Suc.prems(2) by (simp add: keeps_def)
  have k2: "keeps n h (snd ?s)" by (rule keeps_trans[OF k1 simulate_st_keeps[OF Suc.prems(2)]])
  have k3: "keeps n h ?h3" by (rule keeps_appends[OF k2 Suc.prems(2)])
  have k4: "keeps n h ?h4" by (rule keeps_trans[OF k3 keeps_push_path[OF Suc.prems(1)]])
  note n4 = keeps_grow[OF k4 Suc.prems(2)]
  show ?case
    unfolding run_simulations_st.simps Let_def alloc_def split_beta fst_conv snd_conv
    by (rule keeps_trans[OF k4 Suc.IH[OF Suc.prems(1) n4]])
qed

lemma summary_loop_keeps:
  "n \<le> fc \<Longrightarrow> n \<le> pis \<Longrightarrow> n \<le> length h \<Longrightarrow>
   keeps n h (summary_loop simulations iterations confidenceLevel fc pis i c h)"
proof (induction c arbitrary: i h)
  case 0
  then show ?case by simp
next
  case (Suc c)
  let ?h1 = "h @ [Numbers (map (\<lambda>sim. js_nth (numbers h sim) (int i)) (paths h simulations))]"
  let ?h2 = "sort_in_place (length h) ?h1"
  have k1: "keeps n h ?h1" using Suc.prems(3) by (simp add: keeps_def)
  have k2: "keeps n h ?h2" by (rule keeps_trans[OF k1 keeps_sort_in_place[OF Suc.prems(3)]])
  have k3: "keeps n h (push fc m ?h2)" for m
    by (rule keeps_trans[OF k2 keeps_push[OF Suc.prems(1)]])
  have k4: "keeps n h (push_interval pis iv (push fc m ?h2))" for m iv
    by (rule keeps_trans[OF k3 keeps_push_interval[OF Suc.prems(2)]])
  show ?case
    unfolding summary_loop.simps Let_def alloc_def split_beta fst_conv snd_conv
    by (rule keeps_trans[OF k4 Suc.IH[OF Suc.prems(1,2) keeps_grow[OF k4 Suc.prems(3)]]])
qed

lemma monteCarloSimulation_st_keeps:
  assumes "hist < length h" and "n \<le> length h"
  shows "\<exists>res h'. monteCarloSimulation_st rnd hist opts h = Some (res, h') \<and> keeps n h h'"
proof -
  let ?h1 = "h @ [Numbers []]"
  have k1: "keeps n h ?h1" using assms(2) by (simp add: keeps_def)
  obtain h2 where h2: "percent_loop hist (length h) 1 ?h1 = Some h2" "keeps n ?h1 h2"
    using percent_loop_keeps[of hist "length h" n 1 ?h1] assms by auto
  have k2: "keeps n h h2" by (rule keeps_trans[OF k1 h2(2)])
  note n2 = keeps_grow[OF k2 assms(2)]
  have k3: "keeps n h (h2 @ [Paths []])" by (rule keeps_appends[OF k2 assms(2)])
  have n3: "n \<le> length (h2 @ [Paths []])" by (rule keeps_grow[OF k3 assms(2)])
  have k4: "keeps n h (snd (run_simulations_st rnd m s pr lv (length h2) it 0 (h2 @ [Paths []])))"
    (is "keeps n h (?h4 m s pr lv it)") for m s pr lv it
    by (rule keeps_trans[OF k3 run_simulations_st_keeps[OF n2 n3]])
  have k6: "keeps n h (?h4 m s pr lv it @ [Numbers []] @ [Intervals []])" for m s pr lv it
    by (rule keeps_appends[OF k4 assms(2)])
  note n4 = keeps_grow[OF k4 assms(2)]
  have k7: "keeps n h (summary_loop (length h2) its cl (length (?h4 m s pr lv it))
              (Suc (length (?h4 m s pr lv it))) 0 c (?h4 m s pr lv it @ [Numbers []] @ [Intervals []]))"
    for m s pr lv it its cl c
    by (rule keeps_trans[OF k6 summary_loop_keeps]) (use n4 in \<open>simp_all add: le_SucI\<close>)
  show ?thesis
    unfolding monteCarloSimulation_st_def Let_def alloc_def split_beta fst_conv snd_conv
    using h2(1) k7 by simp
qed

text \<open>
  On the series \<open>[1, 2, 3]\<close> the ARIMA method appends its two forecasts \<open>2.1\<close> and \<open>1.47\<close> to
  the copy at reference 1; the series at reference 0 keeps its three elements.
\<close>

lemma upto_0_0: "[0 .. 0::int] = [0]"
  by (simp add: upto.simps)

lemma ar_loop_st_2:
  "ar_loop_st a p dd df 2 h =
     (let f = ar_component (numbers h a) p (numbers h dd);
          h1 = push dd f (push df f h);
          g = ar_component (numbers h1 a) p (numbers h1 dd)
      in push dd g (push df g h1))"
  by (simp add: numeral_2_eq_2 Let_def)

lemma ar_component_first:
  "ar_component [Fin (7/10)] 1 [Fin 1, Fin 2, Fin 3] = Fin (21/10)"
  by (simp add: ar_component_def upto_0_0 js_nth_def)

lemma ar_component_second:
  "ar_component [Fin (7/10)] 1 [Fin 1, Fin 2, Fin 3, Fin (21/10)] = Fin (147/100)"
  by (simp add: ar_component_def upto_0_0 js_nth_def)

lemma merge_defaults_arima_options:
  "merge_defaults arima_options =
     no_options \<lparr> opt_method := Some ''arima'', opt_periods := Some 2,
                  opt_confidence := Fin 0.95, opt_seasonality := Some 1 \<rparr>"
  by (simp add: arima_options_def merge_defaults_def no_options_def)

lemma ar_loop_st_example:
  "ar_loop_st (Suc (Suc 0)) 1 (Suc 0) (Suc (Suc (Suc (Suc 0)))) 2
     [Numbers [Fin 1, Fin 2, Fin 3], Numbers [Fin 1, Fin 2, Fin 3],
      Numbers [Fin (7/10)], Numbers [Fin (3/10)], Numbers []] =
   [Numbers [Fin 1, Fin 2, Fin 3], Numbers [Fin 1, Fin 2, Fin 3, Fin (21 / 10), Fin (147 / 100)],
    Numbers [Fin (7 / 10)], Numbers [Fin (3 / 10)], Numbers [Fin (21 / 10), Fin (147 / 100)]]"
  by (simp add: ar_loop_st_2 Let_def numbers_def push_def ar_component_first ar_component_second)

lemma arima_st_example:
  "arima_st 0 (merge_defaults arima_options) example_heap =
     Some (Inr \<lparr> ref_method = ''arima'', ref_historicalData = 0, ref_forecast = 5,
                  ref_predictionIntervals = 7,
                  ref_statistics = [(''p'', Fin 1), (''d'', Fin 0), (''q'', Fin 1)] \<rparr>,
           [Numbers [Fin 1, Fin 2, Fin 3],
            Numbers [Fin 1, Fin 2, Fin 3, Fin (21 / 10), Fin (147 / 100)],
            Numbers [Fin (7 / 10)], Numbers [Fin (3 / 10)],
            Numbers [Fin (21 / 10), Fin (147 / 100)],
            Numbers [Fin (21 / 10), Fin (147 / 100)],
            Numbers [Fin 1, Fin 0, Fin 1],
            Intervals (intervals_around [Fin (21 / 10), Fin (147 / 100)]
                         (arima_width (Fin (sqrt (2 / 3)))))])"
  by (simp add: merge_defaults_arima_options arima_st_def no_options_def int_or_def
      example_heap_def alloc_def Array_fill_def loop_count_def numbers_def ar_loop_st_example
      Let_def standardDeviation_st_def split_beta)

lemma arima_working_buffer:
  "generateForecast_st (ArrayAt 0) arima_options example_heap =
     Some (Inr \<lparr> ref_method = ''arima'', ref_historicalData = 0, ref_forecast = 5,
                  ref_predictionIntervals = 7,
                  ref_statistics = [(''p'', Fin 1), (''d'', Fin 0), (''q'', Fin 1)] \<rparr>,
           [Numbers [Fin 1, Fin 2, Fin 3],
            Numbers [Fin 1, Fin 2, Fin 3, Fin (21 / 10), Fin (147 / 100)],
            Numbers [Fin (7 / 10)], Numbers [Fin (3 / 10)],
            Numbers [Fin (21 / 10), Fin (147 / 100)],
            Numbers [Fin (21 / 10), Fin (147 / 100)],
            Numbers [Fin 1, Fin 0, Fin 1],
            Intervals (intervals_around [Fin (21 / 10), Fin (147 / 100)]
                         (arima_width (Fin (sqrt (2 / 3)))))])"
proof -
  have len: "\<not> length (numbers example_heap 0) < 2"
    by (simp add: example_heap_def numbers_def)
  have m: "opt_method (merge_defaults arima_options) = Some ''arima''"
    by (simp add: merge_defaults_arima_options)
  show ?thesis
    unfolding generateForecast_st_def Let_def input_ref.case if_not_P[OF len] m option.case
      arima_st_example
    by simp
qed

text \<open>
  Claim C9. No operation writes the input series. For a series at a reference \<open>hist\<close> of the
  heap, a call of \<open>generateForecast\<close> (whatever the method and the options, and whether it
  returns a result or throws), a direct call of \<open>arima\<close>, and a call of
  \<open>monteCarloSimulation\<close> all return, and the heap after the call begins with the heap before
  it: every object that existed before the call holds exactly the elements it held, in
  particular the series. ARIMA appends its autoregressive forecasts to the copy
  \<open>[...historicalData]\<close> it has allocated, or to the array a \<open>diff\<close> has allocated.
\<close>

theorem input_series_not_mutated:
  assumes "hist < length h"
  shows "(\<exists>res h'. generateForecast_st (ArrayAt hist) opts h = Some (res, h') \<and>
            take (length h) h' = h \<and> numbers h' hist = numbers h hist) \<and>
         (\<exists>res h'. arima_st hist opts h = Some (res, h') \<and>
            take (length h) h' = h \<and> numbers h' hist = numbers h hist) \<and>
         (\<exists>res h'. monteCarloSimulation_st rnd hist opts h = Some (res, h') \<and>
            take (length h) h' = h \<and> numbers h' hist = numbers h hist)"
proof -
  have same: "take (length h) h' = h \<and> numbers h' hist = numbers h hist"
    if "keeps (length h) h h'" for h'
    using that numbers_keeps[OF that assms] by (simp add: keeps_def)
  obtain r1 h1 where 1: "generateForecast_st (ArrayAt hist) opts h = Some (r1, h1)"
    "keeps (length h) h h1"
    using generateForecast_st_keeps[OF assms le_refl] by blast
  obtain r2 h2 where 2: "arima_st hist opts h = Some (r2, h2)" "keeps (length h) h h2"
    using arima_st_keeps[OF assms le_refl] by blast
  obtain r3 h3 where 3: "monteCarloSimulation_st rnd hist opts h = Some (r3, h3)"
    "keeps (length h) h h3"
    using monteCarloSimulation_st_keeps[OF assms le_refl] by blast
  have "\<exists>res h'. generateForecast_st (ArrayAt hist) opts h = Some (res, h') \<and>
          take (length h) h' = h \<and> numbers h' hist = numbers h hist"
    using 1(1) same[OF 1(2)] by simp
  moreover have "\<exists>res h'. arima_st hist opts h = Some (res, h') \<and>
          take (length h) h' = h \<and> numbers h' hist = numbers h hist"
    using 2(1) same[OF 2(2)] by simp
  moreover have "\<exists>res h'. monteCarloSimulation_st rnd hist opts h = Some (res, h') \<and>
          take (length h) h' = h \<and> numbers h' hist = numbers h hist"
    using 3(1) same[OF 3(2)] by simp
  ultimately show ?thesis by (intro conjI)
qed

theorem input_series_not_mutated_witness:
  "(0::nat) < length example_heap \<and>
   (\<exists>res h'. generateForecast_st (ArrayAt 0) arima_options example_heap = Some (res, h') \<and>
      take (length example_heap) h' = example_heap \<and>
      numbers h' 0 = [Fin 1, Fin 2, Fin 3]) \<and>
   (\<exists>res h'. monteCarloSimulation_st half_draws 0 arima_options example_heap = Some (res, h') \<and>
      take (length example_heap) h' = example_heap \<and>
      numbers h' 0 = [Fin 1, Fin 2, Fin 3])"
proof -
  have len: "0 < length example_heap" by (simp add: example_heap_def)
  have nums: "numbers example_heap 0 = [Fin 1, Fin 2, Fin 3]"
    by (simp add: example_heap_def numbers_def)
  note inst = input_series_not_mutated[OF len, of arima_options half_draws, unfolded nums]
  show ?thesis
    by (intro conjI len conjunct1[OF inst] conjunct2[OF conjunct2[OF inst]])
qed

section \<open>The store-level methods return the value-level results\<close>

text \<open>
  The two embeddings agree: a store-level call on a series at the reference \<open>hist\<close> returns,
  and the result read back from the heap after the call is the result of the value-level
  function on the elements the series had before the call. The value-level functions, which
  read \<open>historicalData\<close> as a value that no loop changes, therefore describe the source.
\<close>

lemma holds_numbers: "holds h r xs \<Longrightarrow> numbers h r = xs"
  by (simp add: holds_def numbers_def)

lemma holds_length: "holds h r xs \<Longrightarrow> r < length h"
  by (simp add: holds_def)

lemma holds_push_same: "holds h r xs \<Longrightarrow> holds (push r v h) r (xs @ [v])"
  by (simp add: holds_def push_def)

lemma holds_push_other: "r \<noteq> r' \<Longrightarrow> holds h r' xs \<Longrightarrow> holds (push r v h) r' xs"
  by (cases "h ! r") (simp_all add: holds_def push_def)

lemma holds_alloc_new: "holds (h @ [Numbers xs]) (length h) xs"
  by (simp add: holds_def)

lemma holds_alloc_old: "holds h r xs \<Longrightarrow> holds (h @ obs) r xs"
  by (simp add: holds_def nth_append)

lemma holds_keeps: "keeps n h h' \<Longrightarrow> r < n \<Longrightarrow> n \<le> length h \<Longrightarrow> holds h r xs \<Longrightarrow> holds h' r xs"
  using keeps_nth[of n h h' r] keeps_length[of n h h'] by (simp add: holds_def)

lemma length_diff: "length (diff ys) = length ys - 1"
  by (induction ys rule: diff.induct) simp_all

lemma nth_diff: "Suc j < length ys \<Longrightarrow> diff ys ! j = js_sub (ys ! Suc j) (ys ! j)"
proof (induction ys arbitrary: j rule: diff.induct)
  case (1 a b rest)
  then show ?case by (cases j) simp_all
qed simp_all

lemma diff_positions:
  "diff ys = map (\<lambda>j. js_sub (js_nth ys (int j)) (js_nth ys (int j - 1))) [1..<length ys]"
proof (rule nth_equalityI)
  show "length (diff ys) =
        length (map (\<lambda>j. js_sub (js_nth ys (int j)) (js_nth ys (int j - 1))) [1..<length ys])"
    by (simp add: length_diff)
next
  fix j assume "j < length (diff ys)"
  then have lt: "Suc j < length ys" by (simp add: length_diff)
  have a: "js_nth ys (int (Suc j)) = ys ! Suc j" by (rule js_nth_nat[OF lt])
  have b: "js_nth ys (int (Suc j) - 1) = ys ! j" using js_nth_nat[of j ys] lt by simp
  show "diff ys ! j =
        map (\<lambda>j. js_sub (js_nth ys (int j)) (js_nth ys (int j - 1))) [1..<length ys] ! j"
  proof -
    have "j < length ys - 1" using lt by simp
    then have "map (\<lambda>j. js_sub (js_nth ys (int j)) (js_nth ys (int j - 1))) [1..<length ys] ! j
          = js_sub (js_nth ys (int (1 + j))) (js_nth ys (int (1 + j) - 1))"
      by (rule nth_map_upt)
    then have "map (\<lambda>j. js_sub (js_nth ys (int j)) (js_nth ys (int j - 1))) [1..<length ys] ! j
          = js_sub (js_nth ys (int (Suc j))) (js_nth ys (int (Suc j) - 1))"
      by simp
    then show ?thesis unfolding a b using lt by (simp add: nth_diff)
  qed
qed

lemma diff_loop_holds:
  assumes "data \<noteq> result" and "numbers h data = ys" and "holds h result acc"
  shows "\<exists>h'. diff_loop data result i h = Some h' \<and>
           holds h' result (acc @ map (\<lambda>j. js_sub (js_nth ys (int j)) (js_nth ys (int j - 1)))
                                      [i..<length ys])"
  using assms(2,3)
proof (induction "length ys - i" arbitrary: i h acc)
  case 0
  then show ?case by (subst diff_loop.simps) simp
next
  case (Suc m)
  let ?v = "js_sub (js_nth ys (int i)) (js_nth ys (int i - 1))"
  let ?h1 = "push result ?v h"
  have lt: "i < length ys" using Suc.hyps(2) by simp
  have nb: "numbers ?h1 data = ys" using assms(1) Suc.prems(1) by simp
  have "m = length ys - (i + 1)" using Suc.hyps(2) by simp
  then obtain h' where h': "diff_loop data result (i + 1) ?h1 = Some h'"
    "holds h' result ((acc @ [?v]) @ map (\<lambda>j. js_sub (js_nth ys (int j)) (js_nth ys (int j - 1)))
                                      [i + 1..<length ys])"
    using Suc.hyps(1)[OF _ nb holds_push_same[OF Suc.prems(2)]] by blast
  have "[i..<length ys] = i # [i + 1..<length ys]" using lt by (simp add: upt_conv_Cons)
  then show ?case
    by (subst diff_loop.simps) (use lt h' Suc.prems(1) in simp)
qed

lemma diff_st_holds:
  assumes "data < length h"
  shows "\<exists>h'. diff_st data h = Some (length h, h') \<and> holds h' (length h) (diff (numbers h data))
           \<and> keeps (length h) h h' \<and> length h' = Suc (length h)"
proof -
  let ?h1 = "h @ [Numbers []]"
  have ne: "data \<noteq> length h" using assms by simp
  have nb: "numbers ?h1 data = numbers h data" using assms by simp
  obtain h2 where h2: "diff_loop data (length h) 1 ?h1 = Some h2"
    "holds h2 (length h) (diff (numbers h data))"
    using diff_loop_holds[OF ne nb holds_alloc_new, of 1] by (auto simp: diff_positions)
  obtain h3 where h3: "diff_st data h = Some (length h, h3)" "keeps (length h) h h3"
    "length h3 = Suc (length h)"
    using diff_st_keeps[OF assms le_refl] by blast
  have "h3 = h2" using h2(1) h3(1) by (simp add: diff_st_def alloc_def)
  then show ?thesis using h2(2) h3 by simp
qed

lemma keeps_mono:
  assumes "keeps m h h'" and "n \<le> m"
  shows "keeps n h h'"
proof -
  have "take n (take m h') = take n (take m h)" using assms(1) by (simp add: keeps_def)
  then have "take n h' = take n h" using assms(2) by (simp add: min_absorb1)
  then show ?thesis using assms(1) by (simp add: keeps_def)
qed

lemma intervals_alloc_new [simp]: "intervals (h @ [Intervals ivs]) (length h) = ivs"
  by (simp add: intervals_def)

lemma numbers_appends_old: "r < length h \<Longrightarrow> numbers (h @ obs) r = numbers h r"
  by (simp add: numbers_def nth_append)

lemma undiff_loop_holds:
  assumes "diffData \<noteq> result" and "numbers h diffData = xs" and "holds h result acc"
    and "length acc = i + 1"
  shows "\<exists>h'. undiff_loop diffData result i h = Some h' \<and>
           holds h' result (acc @ undiff (drop i xs) (last acc))"
  using assms(2,3,4)
proof (induction "length xs - i" arbitrary: i h acc)
  case 0
  then show ?case by (subst undiff_loop.simps) (simp add: holds_numbers)
next
  case (Suc m)
  have lt: "i < length xs" using Suc.hyps(2) by simp
  have acc: "numbers h result = acc" by (rule holds_numbers[OF Suc.prems(2)])
  have ne: "acc \<noteq> []" using Suc.prems(3) by auto
  have la: "js_nth acc (int i) = last acc"
    using js_nth_nat[of i acc] Suc.prems(3) last_conv_nth[OF ne] by simp
  have xi: "js_nth xs (int i) = xs ! i" by (rule js_nth_nat[OF lt])
  let ?v = "js_add (last acc) (xs ! i)"
  let ?h1 = "push result ?v h"
  have nb: "numbers ?h1 diffData = xs" using assms(1) Suc.prems(1) by simp
  have m': "m = length xs - (i + 1)" using Suc.hyps(2) by simp
  have l': "length (acc @ [?v]) = (i + 1) + 1" using Suc.prems(3) by simp
  obtain h' where h': "undiff_loop diffData result (i + 1) ?h1 = Some h'"
    "holds h' result ((acc @ [?v]) @ undiff (drop (i + 1) xs) (last (acc @ [?v])))"
    using Suc.hyps(1)[OF m' nb holds_push_same[OF Suc.prems(2)] l'] by blast
  have dr: "drop i xs = xs ! i # drop (i + 1) xs" using lt by (simp add: Cons_nth_drop_Suc)
  show ?case
    by (subst undiff_loop.simps) (use lt h' Suc.prems(1) acc la xi dr in \<open>simp add: Let_def\<close>)
qed

lemma js_slice_rest: "js_slice (v # xs) 1 (int (length (v # xs))) = xs"
  by (simp add: js_slice_def slice_bound_def Let_def)

lemma undiff_st_holds:
  assumes "holds h fc xs"
  shows "\<exists>h'. undiff_st fc v h = Some (Suc (length h), h') \<and>
           holds h' (Suc (length h)) (undiff xs v) \<and> keeps (length h) h h'"
proof -
  let ?h1 = "h @ [Numbers [v]]"
  have ne: "fc \<noteq> length h" using holds_length[OF assms] by simp
  have nb: "numbers ?h1 fc = xs" using holds_numbers[OF holds_alloc_old[OF assms]] .
  obtain h2 where h2: "undiff_loop fc (length h) 0 ?h1 = Some h2"
    "holds h2 (length h) ([v] @ undiff (drop 0 xs) (last [v]))"
    using undiff_loop_holds[OF ne nb holds_alloc_new, of 0] by auto
  obtain h3 where h3: "undiff_loop fc (length h) 0 ?h1 = Some h3" "keeps (length h) ?h1 h3"
    "length h3 = length ?h1"
    using undiff_loop_keeps[OF ne le_refl, of 0 ?h1] by blast
  have eq: "h3 = h2" using h2(1) h3(1) by simp
  have k: "keeps (length h) h h2"
    by (rule keeps_trans[of _ _ ?h1]) (use h3(2) eq in \<open>simp_all add: keeps_def\<close>)
  have len: "length h2 = Suc (length h)" using h3(3) eq by simp
  have nr: "numbers h2 (length h) = v # undiff xs v" using holds_numbers[OF h2(2)] by simp
  have sl: "js_slice (numbers h2 (length h)) 1 (int (length (numbers h2 (length h)))) = undiff xs v"
    unfolding nr by (rule js_slice_rest)
  show ?thesis
    unfolding undiff_st_def Let_def alloc_def split_beta fst_conv snd_conv h2(1) option.case sl len
    using holds_alloc_new[of h2 "undiff xs v"] keeps_appends[OF k le_refl] len
    by simp
qed

lemma diff_times_holds:
  assumes "holds h data ys" and "n \<le> data"
  shows "\<exists>r h'. diff_times k data h = Some (r, h') \<and> holds h' r ((diff ^^ k) ys) \<and>
           keeps n h h' \<and> n \<le> r"
  using assms
proof (induction k arbitrary: data h ys)
  case 0
  then show ?case by simp
next
  case (Suc k)
  have lt: "data < length h" by (rule holds_length[OF Suc.prems(1)])
  have n: "n \<le> length h" using Suc.prems(2) lt by simp
  obtain h1 where h1: "diff_st data h = Some (length h, h1)" "holds h1 (length h) (diff ys)"
    "keeps (length h) h h1"
    using diff_st_holds[OF lt] holds_numbers[OF Suc.prems(1)] by auto
  obtain r h' where r: "diff_times k (length h) h1 = Some (r, h')"
    "holds h' r ((diff ^^ k) (diff ys))" "keeps n h1 h'" "n \<le> r"
    using Suc.IH[OF h1(2) n] by blast
  have "keeps n h h'" by (rule keeps_trans[OF keeps_mono[OF h1(3) n] r(3)])
  then show ?case using h1(1) r by (simp add: funpow_swap1)
qed

lemma ar_loop_st_holds:
  assumes "arParams \<noteq> diffData" and "arParams \<noteq> diffForecast" and "diffData \<noteq> diffForecast"
    and "holds h arParams ars" and "holds h diffData dd" and "holds h diffForecast df"
  shows "holds (ar_loop_st arParams p diffData diffForecast k h) diffData (dd @ ar_loop ars p k dd) \<and>
         holds (ar_loop_st arParams p diffData diffForecast k h) diffForecast (df @ ar_loop ars p k dd)"
  using assms(4,5,6)
proof (induction k arbitrary: h dd df)
  case 0
  then show ?case by simp
next
  case (Suc k)
  let ?f = "ar_component ars p dd"
  let ?h1 = "push diffData ?f (push diffForecast ?f h)"
  have a: "holds ?h1 arParams ars"
    using assms(1,2) Suc.prems(1) by (simp add: holds_push_other)
  have b: "holds ?h1 diffData (dd @ [?f])"
    using assms(3) Suc.prems(2) by (simp add: holds_push_other holds_push_same)
  have c: "holds ?h1 diffForecast (df @ [?f])"
    using assms(3) Suc.prems(3) by (simp add: holds_push_other holds_push_same)
  show ?case
    using Suc.IH[OF a b c] holds_numbers[OF Suc.prems(1)] holds_numbers[OF Suc.prems(2)]
    by (simp add: Let_def)
qed

lemma undiff_times_holds:
  assumes "holds h fc xs" and "hist < length h" and "numbers h hist = ys"
  shows "\<exists>r h'. undiff_times hist js fc h = Some (r, h') \<and>
           holds h' r (foldl (\<lambda>f i. undiff f (js_nth ys (int (length ys) - 1 - i))) xs js) \<and>
           keeps (length h) h h'"
  using assms
proof (induction js arbitrary: fc h xs)
  case Nil
  then show ?case by simp
next
  case (Cons j js)
  let ?v = "js_nth ys (int (length ys) - 1 - j)"
  obtain h1 where h1: "undiff_st fc ?v h = Some (Suc (length h), h1)"
    "holds h1 (Suc (length h)) (undiff xs ?v)" "keeps (length h) h h1"
    using undiff_st_holds[OF Cons.prems(1)] by blast
  have l1: "length h \<le> length h1" by (rule keeps_length[OF h1(3)])
  have hl: "hist < length h1" using Cons.prems(2) l1 by simp
  have nb: "numbers h1 hist = ys"
    using numbers_keeps[OF h1(3) Cons.prems(2) le_refl] Cons.prems(3) by simp
  obtain r h' where r: "undiff_times hist js (Suc (length h)) h1 = Some (r, h')"
    "holds h' r (foldl (\<lambda>f i. undiff f (js_nth ys (int (length ys) - 1 - i))) (undiff xs ?v) js)"
    "keeps (length h1) h1 h'"
    using Cons.IH[OF h1(2) hl nb] by blast
  have "keeps (length h) h h'" by (rule keeps_trans[OF h1(3) keeps_mono[OF r(3) l1]])
  then show ?case using h1(1) r(1,2) Cons.prems(3) by simp
qed

lemma length_ar_loop_st [simp]:
  "length (ar_loop_st arParams p diffData diffForecast k h) = length h"
  by (induction k arbitrary: h) (simp_all add: Let_def)

lemma numbers_alloc_new [simp]: "numbers (h @ [Numbers xs]) (length h) = xs"
  by (simp add: numbers_def)

lemma standardDeviation_st_value:
  assumes "data < length h"
  shows "\<exists>ob. standardDeviation_st data h = (standardDeviation (numbers h data), h @ [ob])"
proof -
  have "numbers (h @ [ob]) data = numbers h data" for ob using assms by simp
  then show ?thesis
    by (simp add: standardDeviation_st_def standardDeviation_def Let_def alloc_def)
qed

lemma read_result_alloc_intervals:
  assumes "holds h fc xs" and "hist < length h"
  shows "read_result (h @ [Intervals ivs])
           \<lparr> ref_method = m, ref_historicalData = hist, ref_forecast = fc,
             ref_predictionIntervals = length h, ref_statistics = st \<rparr>
         = \<lparr> method_name = m, historicalData = numbers h hist, forecast = xs,
             predictionIntervals = ivs, statistics = st \<rparr>"
  using holds_numbers[OF holds_alloc_old[OF assms(1), of "[Intervals ivs]"]] assms(2)
  by (simp add: read_result_def)

lemma arima_st_refines:
  assumes "hist < length h"
  shows "\<exists>res h'. arima_st hist opts h = Some (res, h') \<and>
           read_outcome h' res = arima (numbers h hist) opts"
proof -
  let ?p = "int_or (opt_p opts) 1" and ?d = "int_or (opt_d opts) 0" and ?q = "int_or (opt_q opts) 1"
  let ?ys = "numbers h hist"
  let ?h1 = "h @ [Numbers ?ys]"
  let ?dd = "(diff ^^ nat ?d) ?ys"
  have k1: "keeps (length h) h ?h1" by (simp add: keeps_def)
  obtain diffData h2 where h2: "diff_times (nat ?d) (length h) ?h1 = Some (diffData, h2)"
    "holds h2 diffData ?dd" "keeps (length h) ?h1 h2" "length h \<le> diffData"
    using diff_times_holds[where h = ?h1 and data = "length h" and ys = ?ys and n = "length h"
        and k = "nat ?d", OF holds_alloc_new le_refl]
    by blast
  have k2: "keeps (length h) h h2" by (rule keeps_trans[OF k1 h2(3)])
  note n2 = keeps_grow[OF k2 le_refl]
  have dl: "diffData < length h2" by (rule holds_length[OF h2(2)])
  show ?thesis
  proof (cases "Array_fill (Some ?p) (js_div (Fin 0.7) (Fin (of_int ?p)))")
    case (Inl e)
    then show ?thesis using h2(1)
      by (simp add: arima_st_def arima_def alloc_def Let_def read_outcome_def)
  next
    case ars: (Inr ars)
    show ?thesis
    proof (cases "Array_fill (Some ?q) (js_div (Fin 0.3) (Fin (of_int ?q)))")
      case (Inl e)
      then show ?thesis using h2(1) ars
        by (simp add: arima_st_def arima_def alloc_def Let_def read_outcome_def)
    next
      case mas: (Inr mas)
      let ?k = "loop_count (opt_periods opts)"
      let ?h5 = "h2 @ [Numbers ars] @ [Numbers mas] @ [Numbers []]"
      let ?ar = "length h2"
      let ?df = "Suc (Suc (length h2))"
      let ?h6 = "ar_loop_st ?ar ?p diffData ?df ?k ?h5"
      let ?fl = "ar_loop ars ?p ?k ?dd"
      let ?h7 = "?h6 @ [Numbers (numbers ?h6 ?df)]"
      let ?FC = "foldl (\<lambda>f i. undiff f (js_nth ?ys (int (length ?ys) - 1 - i))) ?fl [0 .. ?d - 1]"
      have a5: "holds ?h5 ?ar ars" by (simp add: holds_def nth_append)
      have d5: "holds ?h5 diffData ?dd" by (rule holds_alloc_old[OF h2(2)])
      have f5: "holds ?h5 ?df []" by (simp add: holds_def nth_append)
      have ne: "?ar \<noteq> diffData" "?ar \<noteq> ?df" "diffData \<noteq> ?df" using dl by simp_all
      have f6: "holds ?h6 ?df ([] @ ?fl)"
        using ar_loop_st_holds[OF ne a5 d5 f5] by blast
      have k5: "keeps (length h) h ?h5" by (rule keeps_appends[OF k2 le_refl])
      have "keeps (length h) ?h5 ?h6" by (rule ar_loop_st_keeps[OF h2(4)]) (use n2 in simp)
      then have k6: "keeps (length h) h ?h6" by (rule keeps_trans[OF k5])
      have k7: "keeps (length h) h ?h7" by (rule keeps_appends[OF k6 le_refl])
      have n7: "numbers ?h7 hist = ?ys" by (rule numbers_keeps[OF k7 assms le_refl])
      have l7: "hist < length ?h7" using keeps_grow[OF k7 le_refl] assms by simp
      have f7: "holds ?h7 (length ?h6) ?fl"
        using holds_numbers[OF f6] holds_alloc_new[of ?h6 "numbers ?h6 ?df"] by simp
      obtain fc h8 where h8: "undiff_times hist [0 .. ?d - 1] (length ?h6) ?h7 = Some (fc, h8)"
        "holds h8 fc ?FC" "keeps (length ?h7) ?h7 h8"
        using undiff_times_holds[OF f7 l7 n7, of "[0 .. ?d - 1]"] by blast
      have k8: "keeps (length h) h h8"
        by (rule keeps_trans[OF k7 keeps_mono[OF h8(3) keeps_grow[OF k7 le_refl]]])
      have n8: "numbers h8 hist = ?ys" by (rule numbers_keeps[OF k8 assms le_refl])
      have l8: "hist < length h8" using keeps_grow[OF k8 le_refl] assms by simp
      obtain ob where sd: "standardDeviation_st hist h8 = (standardDeviation ?ys, h8 @ [ob])"
        using standardDeviation_st_value[OF l8] n8 by auto
      let ?h9 = "h8 @ [ob]"
      have f9: "holds ?h9 fc ?FC" by (rule holds_alloc_old[OF h8(2)])
      have l9: "hist < length ?h9" using l8 by simp
      have n9: "numbers ?h9 hist = ?ys" using n8 l8 by simp
      have run: "arima_st hist opts h =
        Some (Inr \<lparr> ref_method = ''arima'', ref_historicalData = hist, ref_forecast = fc,
                     ref_predictionIntervals = length ?h9,
                     ref_statistics = [(''p'', Fin (of_int ?p)), (''d'', Fin (of_int ?d)),
                                       (''q'', Fin (of_int ?q))] \<rparr>,
              ?h9 @ [Intervals (intervals_around ?FC (arima_width (standardDeviation ?ys)))])"
        unfolding arima_st_def Let_def alloc_def split_beta fst_conv snd_conv
        using h2(1) ars mas h8(1) sd holds_numbers[OF f9]
        by simp
      have pure: "arima ?ys opts =
        Inr \<lparr> method_name = ''arima'', historicalData = ?ys, forecast = ?FC,
               predictionIntervals = intervals_around ?FC (arima_width (standardDeviation ?ys)),
               statistics = [(''p'', Fin (of_int ?p)), (''d'', Fin (of_int ?d)),
                             (''q'', Fin (of_int ?q))] \<rparr>"
        using ars mas by (simp add: arima_def Let_def)
      show ?thesis
        unfolding run pure
        using read_result_alloc_intervals[OF f9 l9] n9
        by (simp add: read_outcome_def)
    qed
  qed
qed

lemma length_foldl_push [simp]: "length (foldl (\<lambda>hp i. push r (g i) hp) h js) = length h"
  by (induction js arbitrary: h) simp_all

lemma numbers_foldl_push_other:
  "r' \<noteq> r \<Longrightarrow> numbers (foldl (\<lambda>hp i. push r (g i) hp) h js) r' = numbers h r'"
  by (induction js arbitrary: h) simp_all

lemma foldl_push_holds:
  "holds h r acc \<Longrightarrow> holds (foldl (\<lambda>hp i. push r (g i) hp) h js) r (acc @ map g js)"
proof (induction js arbitrary: h acc)
  case Nil
  then show ?case by simp
next
  case (Cons j js)
  show ?case using Cons.IH[OF holds_push_same[OF Cons.prems, of "g j"]] by simp
qed

lemma numbers_append:
  "numbers (h @ obs) r = (if r < length h then numbers h r else numbers obs (r - length h))"
  by (auto simp add: numbers_def nth_append)

lemma numbers_Cons_0: "numbers (Numbers xs # obs) 0 = xs"
  by (simp add: numbers_def)

lemma numbers_Cons_Suc: "numbers (ob # obs) (Suc n) = numbers obs n"
  by (simp add: numbers_def)

lemma intervals_append:
  "intervals (h @ obs) r = (if r < length h then intervals h r else intervals obs (r - length h))"
  by (auto simp add: intervals_def nth_append)

lemma intervals_Cons_0: "intervals (Intervals ivs # obs) 0 = ivs"
  by (simp add: intervals_def)

lemma intervals_Cons_Suc: "intervals (ob # obs) (Suc n) = intervals obs n"
  by (simp add: intervals_def)

lemma numbers_Cons_numeral: "numbers (ob # obs) (numeral k) = numbers obs (pred_numeral k)"
  by (simp add: numeral_eq_Suc numbers_Cons_Suc)

lemma intervals_Cons_numeral: "intervals (ob # obs) (numeral k) = intervals obs (pred_numeral k)"
  by (simp add: numeral_eq_Suc intervals_Cons_Suc)

lemma numbers_foldl_push_fresh:
  "numbers (foldl (\<lambda>hp i. push (Suc (length h)) (g i) hp) (h @ [ob, Numbers acc]) js)
     (Suc (length h)) = acc @ map g js"
proof -
  have "holds (h @ [ob, Numbers acc]) (Suc (length h)) acc" by (simp add: holds_def nth_append)
  then show ?thesis by (rule holds_numbers[OF foldl_push_holds])
qed

lemmas heap_reads = numbers_append numbers_Cons_0 numbers_Cons_Suc intervals_append
  intervals_Cons_0 intervals_Cons_Suc numbers_foldl_push_other numbers_foldl_push_fresh
  numbers_Cons_numeral intervals_Cons_numeral

lemma linearRegression_st_refines:
  assumes "hist < length h"
  shows "read_result (snd (linearRegression_st hist opts h)) (fst (linearRegression_st hist opts h))
           = linearRegression (numbers h hist) opts"
  unfolding linearRegression_st_def linearRegression_def Let_def alloc_def split_beta
    fst_conv snd_conv read_result_def
  using assms
  by (simp add: heap_reads del: numbers_alloc_old numbers_push_other)

lemma smooth_st_holds:
  assumes "hist \<noteq> smoothed" and "numbers h hist = ys" and "holds h smoothed acc"
    and "length acc = i" and "0 < i"
  shows "\<exists>h'. smooth_st a hist smoothed i h = Some h' \<and>
           holds h' smoothed (acc @ smooth_loop a (last acc) (drop i ys))"
  using assms(2,3,4,5)
proof (induction "length ys - i" arbitrary: i h acc)
  case 0
  then show ?case by (subst smooth_st.simps) simp
next
  case (Suc m)
  have lt: "i < length ys" using Suc.hyps(2) by simp
  have acc: "numbers h smoothed = acc" by (rule holds_numbers[OF Suc.prems(2)])
  have ne: "acc \<noteq> []" using Suc.prems(3,4) by auto
  have "js_nth acc (int (i - 1)) = acc ! (i - 1)"
    by (rule js_nth_nat) (use Suc.prems(3,4) in simp)
  then have la: "js_nth acc (int i - 1) = last acc"
    using Suc.prems(3,4) last_conv_nth[OF ne] by (simp add: of_nat_diff)
  have yi: "js_nth ys (int i) = ys ! i" by (rule js_nth_nat[OF lt])
  let ?v = "js_add (js_mul a (ys ! i)) (js_mul (js_sub (Fin 1) a) (last acc))"
  let ?h1 = "push smoothed ?v h"
  have nb: "numbers ?h1 hist = ys" using assms(1) Suc.prems(1) by simp
  have m': "m = length ys - (i + 1)" using Suc.hyps(2) by simp
  have l': "length (acc @ [?v]) = i + 1" using Suc.prems(3) by simp
  obtain h' where h': "smooth_st a hist smoothed (i + 1) ?h1 = Some h'"
    "holds h' smoothed ((acc @ [?v]) @ smooth_loop a (last (acc @ [?v])) (drop (i + 1) ys))"
    using Suc.hyps(1)[OF m' nb holds_push_same[OF Suc.prems(2)] l'] by auto
  have dr: "drop i ys = ys ! i # drop (i + 1) ys" using lt by (simp add: Cons_nth_drop_Suc)
  show ?case
    by (subst smooth_st.simps) (use lt h' Suc.prems(1) acc la yi dr in \<open>simp add: Let_def\<close>)
qed

lemma exponentialSmoothing_st_refines:
  assumes "hist < length h"
  shows "\<exists>res h'. exponentialSmoothing_st hist opts h = Some (res, h') \<and>
           read_outcome h' res = exponentialSmoothing (numbers h hist) opts"
proof -
  let ?ys = "numbers h hist"
  let ?a = "js_or (opt_alpha opts) (Fin 0.3)"
  let ?h1 = "h @ [Numbers [js_nth ?ys 0]]"
  let ?sm = "js_nth ?ys 0 # smooth_loop ?a (js_nth ?ys 0) (drop 1 ?ys)"
  have ne: "hist \<noteq> length h" using assms by simp
  have y1: "numbers ?h1 hist = ?ys" using assms by simp
  obtain h2 where h2: "smooth_st ?a hist (length h) 1 ?h1 = Some h2" "holds h2 (length h) ?sm"
    using smooth_st_holds[OF ne y1 holds_alloc_new, of 1 ?a] by auto
  obtain h3 where h3: "smooth_st ?a hist (length h) 1 ?h1 = Some h3" "keeps (length h) ?h1 h3"
    using smooth_st_keeps[OF ne le_refl, of ?a 1 ?h1] by blast
  have k2: "keeps (length h) h h2"
    by (rule keeps_trans[of _ _ ?h1]) (use h2(1) h3 in \<open>simp_all add: keeps_def\<close>)
  have y2: "numbers h2 hist = ?ys" by (rule numbers_keeps[OF k2 assms le_refl])
  have s2: "numbers h2 (length h) = ?sm" by (rule holds_numbers[OF h2(2)])
  have l2: "length h < length h2" by (rule holds_length[OF h2(2)])
  have hl: "hist < length h2" using assms l2 by simp
  show ?thesis
    unfolding exponentialSmoothing_st_def exponentialSmoothing_def Let_def alloc_def split_beta
      fst_conv snd_conv h2(1) option.case
    using y2 s2 l2 hl
    by (simp add: heap_reads read_outcome_def read_result_def split: sum.splits
        del: numbers_alloc_old numbers_push_other cong: if_cong)
qed

lemma average_loop_holds:
  assumes "hist \<noteq> mas" and "hist < length h" and "numbers h hist = ys" and "holds h mas acc"
  shows "\<exists>h'. average_loop w hist mas i h = Some h' \<and>
           holds h' mas
             (acc @ map (\<lambda>j. js_div (foldl (\<lambda>s v. js_add s v) (Fin 0)
                                         (js_slice ys (j - w + 1) (j + 1)))
                                      (Fin (of_int w)))
                        [i .. int (length ys) - 1])"
  using assms(2,3,4)
proof (induction "nat (int (length ys) - i)" arbitrary: i h acc)
  case 0
  then show ?case by (subst average_loop.simps) simp
next
  case (Suc m)
  have lt: "i < int (length ys)" using Suc.hyps(2) by simp
  let ?win = "js_slice ys (i - w + 1) (i + 1)"
  let ?avg = "js_div (foldl (\<lambda>s v. js_add s v) (Fin 0) ?win) (Fin (of_int w))"
  let ?h0 = "h @ [Numbers ?win]"
  let ?h1 = "push mas ?avg ?h0"
  have a: "holds ?h1 mas (acc @ [?avg])"
    by (rule holds_push_same[OF holds_alloc_old[OF Suc.prems(3)]])
  have nb: "numbers ?h1 hist = ys" using assms(1) Suc.prems(1,2) by simp
  have hl: "hist < length ?h1" using Suc.prems(1) by simp
  have m': "m = nat (int (length ys) - (i + 1))" using Suc.hyps(2) by simp
  obtain h' where h': "average_loop w hist mas (i + 1) ?h1 = Some h'"
    "holds h' mas ((acc @ [?avg]) @
        map (\<lambda>j. js_div (foldl (\<lambda>s v. js_add s v) (Fin 0) (js_slice ys (j - w + 1) (j + 1)))
                         (Fin (of_int w)))
            [i + 1 .. int (length ys) - 1])"
    using Suc.hyps(1)[OF m' hl nb a] by blast
  have up: "[i .. int (length ys) - 1] = i # [i + 1 .. int (length ys) - 1]"
    using lt by (simp add: upto_rec1)
  show ?case
    by (subst average_loop.simps)
       (use lt h' Suc.prems(2) up in \<open>simp add: Let_def alloc_def\<close>)
qed

lemma error_loop_holds:
  assumes "hist \<noteq> errors" and "mas \<noteq> errors" and "numbers h hist = ys"
    and "numbers h mas = ms" and "holds h errors acc"
  shows "\<exists>h'. error_loop w hist mas errors i h = Some h' \<and>
           holds h' errors
             (acc @ map (\<lambda>j. js_sub (js_nth ys j) (js_nth ms (j - w + 1)))
                        [i .. int (length ys) - 1])"
  using assms(3,4,5)
proof (induction "nat (int (length ys) - i)" arbitrary: i h acc)
  case 0
  then show ?case by (subst error_loop.simps) simp
next
  case (Suc m)
  have lt: "i < int (length ys)" using Suc.hyps(2) by simp
  let ?e = "js_sub (js_nth ys i) (js_nth ms (i - w + 1))"
  let ?h1 = "push errors ?e h"
  have a: "holds ?h1 errors (acc @ [?e])" by (rule holds_push_same[OF Suc.prems(3)])
  have nb: "numbers ?h1 hist = ys" using assms(1) Suc.prems(1) by simp
  have mb: "numbers ?h1 mas = ms" using assms(2) Suc.prems(2) by simp
  have m': "m = nat (int (length ys) - (i + 1))" using Suc.hyps(2) by simp
  obtain h' where h': "error_loop w hist mas errors (i + 1) ?h1 = Some h'"
    "holds h' errors ((acc @ [?e]) @
        map (\<lambda>j. js_sub (js_nth ys j) (js_nth ms (j - w + 1))) [i + 1 .. int (length ys) - 1])"
    using Suc.hyps(1)[OF m' nb mb a] by blast
  have up: "[i .. int (length ys) - 1] = i # [i + 1 .. int (length ys) - 1]"
    using lt by (simp add: upto_rec1)
  show ?case
    by (subst error_loop.simps)
       (use lt h' Suc.prems(1,2) up in \<open>simp add: Let_def\<close>)
qed

lemma movingAverage_st_refines:
  assumes "hist < length h"
  shows "\<exists>res h'. movingAverage_st hist opts h = Some (res, h') \<and>
           read_outcome h' res = movingAverage (numbers h hist) opts"
proof (cases "int (length (numbers h hist)) < int_or (opt_windowSize opts) 3")
  case True
  then show ?thesis
    by (simp add: movingAverage_st_def movingAverage_def Let_def read_outcome_def)
next
  case False
  let ?ys = "numbers h hist"
  let ?w = "int_or (opt_windowSize opts) 3"
  let ?h1 = "h @ [Numbers []]"
  let ?ms = "map (\<lambda>j. js_div (foldl (\<lambda>s v. js_add s v) (Fin 0) (js_slice ?ys (j - ?w + 1) (j + 1)))
                           (Fin (of_int ?w)))
                 [?w - 1 .. int (length ?ys) - 1]"
  let ?es = "map (\<lambda>j. js_sub (js_nth ?ys j) (js_nth ?ms (j - ?w + 1)))
                 [?w - 1 .. int (length ?ys) - 1]"
  have ne: "hist \<noteq> length h" using assms by simp
  have y1: "numbers ?h1 hist = ?ys" using assms by simp
  have l1: "hist < length ?h1" using assms by simp
  obtain h2 where h2: "average_loop ?w hist (length h) (?w - 1) ?h1 = Some h2"
    "holds h2 (length h) ([] @ ?ms)"
    using average_loop_holds[OF ne l1 y1 holds_alloc_new, of ?w "?w - 1"] by blast
  obtain h2' where h2': "average_loop ?w hist (length h) (?w - 1) ?h1 = Some h2'"
    "keeps (length h) ?h1 h2'"
    using average_loop_keeps[OF ne le_refl l1, of ?w "?w - 1"] by auto
  have k2: "keeps (length h) h h2"
    by (rule keeps_trans[of _ _ ?h1]) (use h2(1) h2' in \<open>simp_all add: keeps_def\<close>)
  have y2: "numbers h2 hist = ?ys" by (rule numbers_keeps[OF k2 assms le_refl])
  have m2: "numbers h2 (length h) = ?ms" using holds_numbers[OF h2(2)] by simp
  have ll: "length h < length h2" by (rule holds_length[OF h2(2)])
  have hl2: "hist < length h2" using assms ll by simp
  show ?thesis
  proof (cases "Array_fill (opt_periods opts) (js_nth ?ms (int (length ?ms) - 1))")
    case (Inl e)
    then show ?thesis
      unfolding movingAverage_st_def movingAverage_def Let_def alloc_def split_beta fst_conv
        snd_conv
      using False h2(1) m2 by (simp add: read_outcome_def)
  next
    case (Inr filled)
    let ?h4 = "h2 @ [Numbers filled] @ [Numbers []]"
    let ?er = "Suc (length h2)"
    have y4: "numbers ?h4 hist = ?ys" using y2 hl2 by (simp add: numbers_appends_old)
    have m4: "numbers ?h4 (length h) = ?ms" using m2 ll by (simp add: numbers_appends_old)
    have e4: "holds ?h4 ?er []" by (simp add: holds_def nth_append)
    have ne4: "hist \<noteq> ?er" "length h \<noteq> ?er" using hl2 ll by simp_all
    obtain h5 where h5: "error_loop ?w hist (length h) ?er (?w - 1) ?h4 = Some h5"
      "holds h5 ?er ([] @ ?es)"
      using error_loop_holds[OF ne4 y4 m4 e4, of ?w "?w - 1"] by blast
    obtain h5' where h5': "error_loop ?w hist (length h) ?er (?w - 1) ?h4 = Some h5'"
      "keeps ?er ?h4 h5'"
      using error_loop_keeps[OF ne4(1) le_refl, of ?w "length h" "?w - 1" ?h4] by blast
    have k5: "keeps ?er ?h4 h5" using h5(1) h5' by simp
    have y5: "numbers h5 hist = ?ys"
      using numbers_keeps[OF k5, of hist] hl2 y4 by simp
    have f5: "numbers h5 (length h2) = filled"
      using numbers_keeps[OF k5, of "length h2"] by (simp add: heap_reads)
    have e5: "numbers h5 ?er = ?es" using holds_numbers[OF h5(2)] by simp
    have l5: "length h2 < length h5" "hist < length h5"
      using holds_length[OF h5(2)] hl2 by simp_all
    have run: "movingAverage_st hist opts h =
      Some (Inr \<lparr> ref_method = ''moving-average'', ref_historicalData = hist,
                   ref_forecast = length h2, ref_predictionIntervals = length h5,
                   ref_statistics =
                     [(''windowSize'', Fin (of_int ?w)),
                      (''rmse'', Math_sqrt (js_div (foldl (\<lambda>s e. js_add s (js_mul e e)) (Fin 0) ?es)
                                                   (Fin (real (length ?es)))))] \<rparr>,
            h5 @ [Intervals (intervals_around filled
                    (average_width ?w (Math_sqrt (js_div
                        (foldl (\<lambda>s e. js_add s (js_mul e e)) (Fin 0) ?es)
                        (Fin (real (length ?es)))))))])"
      unfolding movingAverage_st_def Let_def alloc_def split_beta fst_conv snd_conv
      using False h2(1) m2 Inr h5(1) e5 f5
      by simp
    have pure: "movingAverage ?ys opts =
      Inr \<lparr> method_name = ''moving-average'', historicalData = ?ys, forecast = filled,
             predictionIntervals = intervals_around filled
                    (average_width ?w (Math_sqrt (js_div
                        (foldl (\<lambda>s e. js_add s (js_mul e e)) (Fin 0) ?es)
                        (Fin (real (length ?es)))))),
             statistics =
               [(''windowSize'', Fin (of_int ?w)),
                (''rmse'', Math_sqrt (js_div (foldl (\<lambda>s e. js_add s (js_mul e e)) (Fin 0) ?es)
                                             (Fin (real (length ?es)))))] \<rparr>"
      unfolding movingAverage_def Let_def using False Inr by simp
    show ?thesis
      unfolding run pure
      using y5 f5 l5
      by (simp add: read_outcome_def read_result_def heap_reads del: numbers_alloc_old)
  qed
qed

lemma generateForecast_st_refines:
  assumes "hist < length h"
  shows "\<exists>res h'. generateForecast_st (ArrayAt hist) opts h = Some (res, h') \<and>
           read_outcome h' res = generateForecast (ArrayOf (numbers h hist)) opts"
  using linearRegression_st_refines[OF assms, of "merge_defaults opts"]
    exponentialSmoothing_st_refines[OF assms, of "merge_defaults opts"]
    movingAverage_st_refines[OF assms, of "merge_defaults opts"]
    arima_st_refines[OF assms, of "merge_defaults opts"]
  by (simp add: generateForecast_st_def generateForecast_def Let_def split_beta read_outcome_def
      split: option.splits)

lemma length_percentChanges: "length (percentChanges ys) = length ys - 1"
  by (induction ys rule: percentChanges.induct) simp_all

lemma nth_percentChanges:
  "Suc j < length ys \<Longrightarrow> percentChanges ys ! j = js_sub (js_div (ys ! Suc j) (ys ! j)) (Fin 1)"
proof (induction ys arbitrary: j rule: percentChanges.induct)
  case (1 a b rest)
  then show ?case by (cases j) simp_all
qed simp_all

lemma percentChanges_positions:
  "percentChanges ys =
     map (\<lambda>j. js_sub (js_div (js_nth ys (int j)) (js_nth ys (int j - 1))) (Fin 1)) [1..<length ys]"
proof (rule nth_equalityI)
  show "length (percentChanges ys) =
        length (map (\<lambda>j. js_sub (js_div (js_nth ys (int j)) (js_nth ys (int j - 1))) (Fin 1))
                    [1..<length ys])"
    by (simp add: length_percentChanges)
next
  fix j assume "j < length (percentChanges ys)"
  then have lt: "Suc j < length ys" by (simp add: length_percentChanges)
  have a: "js_nth ys (int (Suc j)) = ys ! Suc j" by (rule js_nth_nat[OF lt])
  have b: "js_nth ys (int (Suc j) - 1) = ys ! j" using js_nth_nat[of j ys] lt by simp
  have "j < length ys - 1" using lt by simp
  then have "map (\<lambda>j. js_sub (js_div (js_nth ys (int j)) (js_nth ys (int j - 1))) (Fin 1))
                 [1..<length ys] ! j
        = js_sub (js_div (js_nth ys (int (1 + j))) (js_nth ys (int (1 + j) - 1))) (Fin 1)"
    by (rule nth_map_upt)
  then have "map (\<lambda>j. js_sub (js_div (js_nth ys (int j)) (js_nth ys (int j - 1))) (Fin 1))
                 [1..<length ys] ! j
        = js_sub (js_div (js_nth ys (int (Suc j))) (js_nth ys (int (Suc j) - 1))) (Fin 1)"
    by simp
  then show "percentChanges ys ! j =
        map (\<lambda>j. js_sub (js_div (js_nth ys (int j)) (js_nth ys (int j - 1))) (Fin 1))
            [1..<length ys] ! j"
    unfolding a b using lt by (simp add: nth_percentChanges)
qed

lemma percent_loop_holds:
  assumes "hist \<noteq> pcs" and "numbers h hist = ys" and "holds h pcs acc"
  shows "\<exists>h'. percent_loop hist pcs i h = Some h' \<and>
           holds h' pcs (acc @ map (\<lambda>j. js_sub (js_div (js_nth ys (int j)) (js_nth ys (int j - 1)))
                                             (Fin 1))
                                   [i..<length ys])"
  using assms(2,3)
proof (induction "length ys - i" arbitrary: i h acc)
  case 0
  then show ?case by (subst percent_loop.simps) simp
next
  case (Suc m)
  let ?v = "js_sub (js_div (js_nth ys (int i)) (js_nth ys (int i - 1))) (Fin 1)"
  let ?h1 = "push pcs ?v h"
  have lt: "i < length ys" using Suc.hyps(2) by simp
  have nb: "numbers ?h1 hist = ys" using assms(1) Suc.prems(1) by simp
  have m': "m = length ys - (i + 1)" using Suc.hyps(2) by simp
  obtain h' where h': "percent_loop hist pcs (i + 1) ?h1 = Some h'"
    "holds h' pcs ((acc @ [?v]) @
        map (\<lambda>j. js_sub (js_div (js_nth ys (int j)) (js_nth ys (int j - 1))) (Fin 1))
            [i + 1..<length ys])"
    using Suc.hyps(1)[OF m' nb holds_push_same[OF Suc.prems(2)]] by blast
  have "[i..<length ys] = i # [i + 1..<length ys]" using lt by (simp add: upt_conv_Cons)
  then show ?case
    by (subst percent_loop.simps) (use lt h' Suc.prems(1) in simp)
qed

lemma length_simulate_st [simp]:
  "length (snd (simulate_st rnd mean stdDev simulation j c k h)) = length h"
  by (induction c arbitrary: j k h) (simp_all add: Let_def split_beta)

lemma simulate_st_holds:
  assumes "holds h simulation acc" and "length acc = j + 1"
  shows "holds (snd (simulate_st rnd mean stdDev simulation j c k h)) simulation
           (acc @ fst (simulate rnd mean stdDev c (last acc) k)) \<and>
         fst (simulate_st rnd mean stdDev simulation j c k h)
           = snd (simulate rnd mean stdDev c (last acc) k)"
  using assms
proof (induction c arbitrary: j k h acc)
  case 0
  then show ?case by simp
next
  case (Suc c)
  have ne: "acc \<noteq> []" using Suc.prems(2) by auto
  have la: "js_nth (numbers h simulation) (int j) = last acc"
    using js_nth_nat[of j acc] Suc.prems(2) last_conv_nth[OF ne] holds_numbers[OF Suc.prems(1)]
    by simp
  let ?nv = "js_mul (last acc)
               (js_add (Fin 1) (js_add mean (js_mul stdDev (fst (boxMullerTransform rnd k)))))"
  have a: "holds (push simulation ?nv h) simulation (acc @ [?nv])"
    by (rule holds_push_same[OF Suc.prems(1)])
  have l: "length (acc @ [?nv]) = (j + 1) + 1" using Suc.prems(2) by simp
  show ?case
    using Suc.IH[OF a l, of "snd (boxMullerTransform rnd k)"] la
    by (simp add: Let_def split_beta)
qed

lemma numbers_push_path [simp]: "numbers (push_path r p h) r' = numbers h r'"
  by (cases "h ! r") (auto simp add: numbers_def push_path_def nth_list_update)

lemma numbers_push_interval [simp]: "numbers (push_interval r iv h) r' = numbers h r'"
  by (cases "h ! r") (auto simp add: numbers_def push_interval_def nth_list_update)

lemma nth_push_path_same:
  "r < length h \<Longrightarrow> h ! r = Paths rs \<Longrightarrow> push_path r p h ! r = Paths (rs @ [p])"
  by (simp add: push_path_def)

lemma nth_push_other: "r' \<noteq> r \<Longrightarrow> push r v h ! r' = h ! r'"
  by (cases "h ! r") (simp_all add: push_def)

lemma nth_push_interval_other: "r' \<noteq> r \<Longrightarrow> push_interval r iv h ! r' = h ! r'"
  by (cases "h ! r") (simp_all add: push_interval_def)

lemma nth_push_interval_same:
  "r < length h \<Longrightarrow> h ! r = Intervals ivs \<Longrightarrow> push_interval r iv h ! r = Intervals (ivs @ [iv])"
  by (simp add: push_interval_def)

lemma holds_push_interval: "holds h r xs \<Longrightarrow> holds (push_interval p iv h) r xs"
  by (cases "h ! p") (auto simp add: holds_def push_interval_def nth_list_update)

lemma sort_in_place_fresh:
  "sort_in_place (length h) (h @ [Numbers xs]) = h @ [Numbers (js_sort xs)]"
  by (simp add: sort_in_place_def)

lemma run_simulations_st_holds:
  assumes "simulations < length h" and "h ! simulations = Paths rs"
    and "\<forall>r\<in>set rs. r < length h" and "map (numbers h) rs = sims"
  shows "\<exists>rs'. simulations < length (snd (run_simulations_st rnd mean stdDev periods lastValue
                                              simulations i k h)) \<and>
           snd (run_simulations_st rnd mean stdDev periods lastValue simulations i k h) ! simulations
             = Paths rs' \<and>
           (\<forall>r\<in>set rs'. r < length (snd (run_simulations_st rnd mean stdDev periods lastValue
                                             simulations i k h))) \<and>
           map (numbers (snd (run_simulations_st rnd mean stdDev periods lastValue simulations
                                 i k h))) rs'
             = sims @ run_simulations rnd mean stdDev periods lastValue i k"
  using assms
proof (induction i arbitrary: k h rs sims)
  case 0
  then show ?case by simp
next
  case (Suc i)
  let ?h1 = "h @ [Numbers [lastValue]]"
  let ?s = "simulate_st rnd mean stdDev (length h) 0 periods k ?h1"
  let ?sim = "fst (simulate rnd mean stdDev periods lastValue k)"
  let ?k1 = "snd (simulate rnd mean stdDev periods lastValue k)"
  let ?h3 = "snd ?s @ [Numbers ?sim]"
  let ?h4 = "push_path simulations (Suc (length h)) ?h3"
  have s: "holds (snd ?s) (length h) ([lastValue] @ ?sim)" "fst ?s = ?k1"
    using simulate_st_holds[where h = ?h1 and simulation = "length h" and acc = "[lastValue]"
        and j = 0 and rnd = rnd and mean = mean and stdDev = stdDev and c = periods and k = k,
        OF holds_alloc_new]
    by simp_all
  have ls: "length (snd ?s) = Suc (length h)" by simp
  have k1: "keeps (length h) h ?h1" by (simp add: keeps_def)
  have ks: "keeps (length h) h (snd ?s)"
    by (rule keeps_trans[OF k1 simulate_st_keeps[OF le_refl]])
  have nv: "numbers (snd ?s) (length h) = lastValue # ?sim"
    using holds_numbers[OF s(1)] by simp
  have sl: "js_slice (numbers (snd ?s) (length h)) 1 (int (length (numbers (snd ?s) (length h))))
              = ?sim"
    unfolding nv by (rule js_slice_rest)
  have step: "run_simulations_st rnd mean stdDev periods lastValue simulations (Suc i) k h
                = run_simulations_st rnd mean stdDev periods lastValue simulations i ?k1 ?h4"
    unfolding run_simulations_st.simps Let_def alloc_def split_beta fst_conv snd_conv sl s(2) ls
    by simp
  have old: "numbers ?h4 r = numbers h r" if "r < length h" for r
    using numbers_keeps[OF ks that le_refl] that by (simp add: numbers_appends_old)
  have a: "simulations < length ?h4" using Suc.prems(1) by simp
  have "?h3 ! simulations = h ! simulations"
    using keeps_nth[OF ks Suc.prems(1) le_refl] Suc.prems(1) by (simp add: nth_append)
  then have b: "?h4 ! simulations = Paths (rs @ [Suc (length h)])"
    using Suc.prems(1,2) by (simp add: nth_push_path_same)
  have c: "\<forall>r\<in>set (rs @ [Suc (length h)]). r < length ?h4"
    using Suc.prems(3) by auto
  have new: "numbers ?h4 (Suc (length h)) = ?sim"
    using numbers_alloc_new[of "snd ?s" ?sim] by simp
  have "map (numbers ?h4) rs = map (numbers h) rs"
  proof (rule map_cong[OF refl])
    fix r assume "r \<in> set rs"
    then have "r < length h" using Suc.prems(3) by blast
    then show "numbers ?h4 r = numbers h r" by (rule old)
  qed
  then have d: "map (numbers ?h4) (rs @ [Suc (length h)]) = sims @ [?sim]"
    using new Suc.prems(4) by simp
  have pure: "run_simulations rnd mean stdDev periods lastValue (Suc i) k
                = ?sim # run_simulations rnd mean stdDev periods lastValue i ?k1"
    by (simp add: Let_def split_beta)
  show ?case
    unfolding step pure using Suc.IH[OF a b c d, of ?k1] by simp
qed

lemma summary_loop_holds:
  assumes "simulations < fc" and "h ! simulations = Paths rs" and "\<forall>r\<in>set rs. r < fc"
    and "map (numbers h) rs = sims" and "fc < pis" and "pis < length h"
    and "holds h fc accf" and "h ! pis = Intervals acci"
  shows "holds (summary_loop simulations iterations confidenceLevel fc pis i c h) fc
           (accf @ map (\<lambda>n. fst (period_summary sims iterations confidenceLevel n)) [i..<i + c]) \<and>
         intervals (summary_loop simulations iterations confidenceLevel fc pis i c h) pis
           = acci @ map (\<lambda>n. snd (period_summary sims iterations confidenceLevel n)) [i..<i + c]"
  using assms(2,4,6,7,8)
proof (induction c arbitrary: i h accf acci)
  case 0
  then show ?case by (simp add: intervals_def)
next
  case (Suc c)
  let ?pv = "js_sort (map (\<lambda>sim. js_nth sim (int i)) sims)"
  let ?ps = "period_summary sims iterations confidenceLevel i"
  let ?h2 = "h @ [Numbers ?pv]"
  let ?h3 = "push fc (fst ?ps) ?h2"
  let ?h4 = "push_interval pis (snd ?ps) ?h3"
  have fl: "fc < length h" "simulations < length h" using assms(1,5) Suc.prems(3) by simp_all
  have pa: "paths h simulations = rs" using Suc.prems(1) fl by (simp add: paths_def)
  have pv0: "map (\<lambda>sim. js_nth (numbers h sim) (int i)) (paths h simulations)
               = map (\<lambda>sim. js_nth sim (int i)) sims"
    unfolding pa using Suc.prems(2) by (auto simp add: map_eq_conv comp_def dest: arg_cong)
  have n3: "numbers (push fc v ?h2) (length h) = ?pv" for v
    using fl by (simp add: numbers_push_other)
  have step: "summary_loop simulations iterations confidenceLevel fc pis i (Suc c) h
                = summary_loop simulations iterations confidenceLevel fc pis (i + 1) c ?h4"
    unfolding summary_loop.simps Let_def alloc_def split_beta fst_conv snd_conv pv0
      sort_in_place_fresh
    by (simp add: period_summary_def Let_def n3 del: numbers_push_other)
  have a: "?h4 ! simulations = Paths rs"
    using Suc.prems(1) fl assms(1,5) by (simp add: nth_push_interval_other nth_push_other nth_append)
  have "numbers ?h4 r = numbers h r" if "r \<in> set rs" for r
  proof -
    have "r < fc" using assms(3) that by blast
    then show ?thesis using fl by (simp add: numbers_appends_old)
  qed
  then have b: "map (numbers ?h4) rs = sims" using Suc.prems(2) by (simp cong: map_cong)
  have c: "pis < length ?h4" using Suc.prems(3) by simp
  have d: "holds ?h4 fc (accf @ [fst ?ps])"
    by (rule holds_push_interval[OF holds_push_same[OF holds_alloc_old[OF Suc.prems(4)]]])
  have "?h3 ! pis = Intervals acci"
    using Suc.prems(3,5) assms(5) by (simp add: nth_push_other nth_append)
  then have e: "?h4 ! pis = Intervals (acci @ [snd ?ps])"
    using Suc.prems(3) by (simp add: nth_push_interval_same)
  have up: "[i..<i + Suc c] = i # [i + 1..<i + 1 + c]" by (simp add: upt_conv_Cons)
  show ?case unfolding step up using Suc.IH[OF a b c d e, of "i + 1"] by simp
qed

lemma monteCarloSimulation_st_refines:
  assumes "hist < length h"
  shows "\<exists>res h'. monteCarloSimulation_st rnd hist opts h = Some (res, h') \<and>
           read_result h' res = monteCarloSimulation rnd (numbers h hist) opts"
proof -
  let ?ys = "numbers h hist"
  let ?its = "int_or (opt_iterations opts) 1000"
  let ?per = "int_or (opt_periods opts) 5"
  let ?cl = "js_or (opt_confidence opts) (Fin 0.95)"
  let ?pcs = "percentChanges ?ys"
  let ?mean = "js_div (foldl (\<lambda>s v. js_add s v) (Fin 0) ?pcs) (Fin (real (length ?pcs)))"
  let ?sd = "Math_sqrt (js_div (foldl (\<lambda>s v. js_add s (Math_pow2 (js_sub v ?mean))) (Fin 0) ?pcs)
                               (Fin (real (length ?pcs))))"
  let ?lv = "js_nth ?ys (int (length ?ys) - 1)"
  let ?sims = "run_simulations rnd ?mean ?sd (nat ?per) ?lv (nat ?its) 0"
  let ?h1 = "h @ [Numbers []]"
  have ne: "hist \<noteq> length h" using assms by simp
  have y1: "numbers ?h1 hist = ?ys" using assms by simp
  obtain h2 where h2: "percent_loop hist (length h) 1 ?h1 = Some h2" "holds h2 (length h) ?pcs"
    using percent_loop_holds[OF ne y1 holds_alloc_new, of 1] by (auto simp: percentChanges_positions)
  obtain h2' where h2': "percent_loop hist (length h) 1 ?h1 = Some h2'" "keeps (length h) ?h1 h2'"
    using percent_loop_keeps[OF ne le_refl, of 1 ?h1] by blast
  have k2: "keeps (length h) h h2"
    by (rule keeps_trans[of _ _ ?h1]) (use h2(1) h2' in \<open>simp_all add: keeps_def\<close>)
  have y2: "numbers h2 hist = ?ys" by (rule numbers_keeps[OF k2 assms le_refl])
  have p2: "numbers h2 (length h) = ?pcs" by (rule holds_numbers[OF h2(2)])
  have hl2: "hist < length h2" using holds_length[OF h2(2)] assms by simp
  let ?h3 = "h2 @ [Paths []]"
  have y3: "numbers ?h3 hist = ?ys" using y2 hl2 by (simp add: numbers_appends_old)
  let ?r = "run_simulations_st rnd ?mean ?sd (nat ?per) ?lv (length h2) (nat ?its) 0 ?h3"
  let ?h4 = "snd ?r"
  obtain rs where rs: "length h2 < length ?h4" "?h4 ! length h2 = Paths rs"
    "\<forall>r\<in>set rs. r < length ?h4" "map (numbers ?h4) rs = ?sims"
    using run_simulations_st_holds[where h = ?h3 and simulations = "length h2" and rs = "[]"
        and sims = "[]" and rnd = rnd and mean = ?mean and stdDev = ?sd and periods = "nat ?per"
        and lastValue = ?lv and i = "nat ?its" and k = 0]
    by auto
  let ?fc = "length ?h4"
  let ?pis = "Suc (length ?h4)"
  let ?h6 = "?h4 @ [Numbers [], Intervals []]"
  let ?h7 = "summary_loop (length h2) ?its ?cl ?fc ?pis 0 (nat ?per) ?h6"
  have a: "?h6 ! length h2 = Paths rs" using rs(1,2) by (simp add: nth_append)
  have b: "map (numbers ?h6) rs = ?sims"
  proof -
    have "map (numbers ?h6) rs = map (numbers ?h4) rs"
    proof (rule map_cong[OF refl])
      fix r assume "r \<in> set rs"
      then have "r < length ?h4" using rs(3) by blast
      then show "numbers ?h6 r = numbers ?h4 r" by (rule numbers_appends_old)
    qed
    then show ?thesis using rs(4) by simp
  qed
  have c: "?pis < length ?h6" by simp
  have d: "holds ?h6 ?fc []" by (simp add: holds_def nth_append)
  have e: "?h6 ! ?pis = Intervals []" by (simp add: nth_append)
  have res: "holds ?h7 ?fc ([] @ map (\<lambda>n. fst (period_summary ?sims ?its ?cl n)) [0..<0 + nat ?per])"
    "intervals ?h7 ?pis = [] @ map (\<lambda>n. snd (period_summary ?sims ?its ?cl n)) [0..<0 + nat ?per]"
    using summary_loop_holds[OF rs(1) a rs(3) b lessI c d e, of ?its ?cl 0 "nat ?per"]
    by blast+
  have run: "monteCarloSimulation_st rnd hist opts h =
    Some (\<lparr> ref_method = ''monte-carlo'', ref_historicalData = hist, ref_forecast = ?fc,
             ref_predictionIntervals = ?pis,
             ref_statistics = [(''iterations'', Fin (of_int ?its)), (''mean'', ?mean),
                               (''stdDev'', ?sd)] \<rparr>, ?h7)"
    unfolding monteCarloSimulation_st_def Let_def alloc_def split_beta fst_conv snd_conv
    using h2(1) p2 y3
    by simp
  obtain res' h' where all: "monteCarloSimulation_st rnd hist opts h = Some (res', h')"
    "keeps (length h) h h'"
    using monteCarloSimulation_st_keeps[OF assms le_refl] by blast
  have "h' = ?h7" using all(1) run by simp
  then have y7: "numbers ?h7 hist = ?ys" using numbers_keeps[OF all(2) assms le_refl] by simp
  have f7: "numbers ?h7 ?fc = map (\<lambda>n. fst (period_summary ?sims ?its ?cl n)) [0..<nat ?per]"
    using holds_numbers[OF res(1)] by simp
  have i7: "intervals ?h7 ?pis = map (\<lambda>n. snd (period_summary ?sims ?its ?cl n)) [0..<nat ?per]"
    using res(2) by simp
  have "read_result ?h7
          \<lparr> ref_method = ''monte-carlo'', ref_historicalData = hist, ref_forecast = ?fc,
            ref_predictionIntervals = ?pis,
            ref_statistics = [(''iterations'', Fin (of_int ?its)), (''mean'', ?mean),
                              (''stdDev'', ?sd)] \<rparr>
        = monteCarloSimulation rnd ?ys opts"
    unfolding read_result_def monteCarloSimulation_def Let_def result_refs.simps y7 f7 i7
    by (simp add: comp_def)
  then show ?thesis unfolding run by simp
qed

end
